theory Spec2Isabelle
  imports Main "HOL-Library.Multiset"
begin

section \<open>Text and JavaScript values\<close>

text \<open>
  JavaScript strings are modelled as \<open>string\<close>: a list of code units, of which
  the model knows the 8-bit ones. \<open>length\<close> is \<open>.length\<close>. Instants
  (\<open>createdDateTime\<close>, the value of a \<open>Date\<close>) are integers, the milliseconds
  since the epoch; a \<open>Date\<close> object may also be the invalid date.
\<close>

datatype js_date = ValidDate int | InvalidDate

record message =
  msg_id :: string
  createdDateTime :: int
  msg_body :: string

section \<open>Regular expressions and string methods\<close>

text \<open>
  The character classes of the regular expressions used: \<open>\d\<close>, \<open>\s\<close> (of the
  8-bit code units: tab, line feed, vertical tab, form feed, carriage return, space,
  no-break space), the line terminators (line feed and carriage return), \<open>.\<close> (every
  unit but a line terminator) and \<open>[\s\S]\<close>.
\<close>

definition is_digit :: "char \<Rightarrow> bool" where
  "is_digit c = (c \<in> set ''0123456789'')"

definition is_space :: "char \<Rightarrow> bool" where
  "is_space c = (c \<in> {CHR 0x09, CHR 0x0A, CHR 0x0B, CHR 0x0C, CHR 0x0D, CHR 0x20, CHR 0xA0})"

definition is_line_terminator :: "char \<Rightarrow> bool" where
  "is_line_terminator c = (c \<in> {CHR 0x0A, CHR 0x0D})"

definition dot :: "char \<Rightarrow> bool" where
  "dot c = (\<not> is_line_terminator c)"

definition any_char :: "char \<Rightarrow> bool" where
  "any_char c = True"

text \<open>
  The regular expressions of the source are sequences of these atoms: a literal text,
  a greedy \<open>c+\<close> or \<open>c*\<close> and a lazy \<open>c*?\<close> over a character class, and the
  anchors \<open>^\<close> and \<open>$\<close> of the multiline mode.
\<close>

datatype atom =
    Lit string
  | Plus "char \<Rightarrow> bool"
  | Star "char \<Rightarrow> bool"
  | LazyStar "char \<Rightarrow> bool"
  | Bol
  | Eol

fun first_some :: "('a \<Rightarrow> 'b option) \<Rightarrow> 'a list \<Rightarrow> 'b option" where
  "first_some f [] = None"
| "first_some f (x # xs) = (case f x of Some y \<Rightarrow> Some y | None \<Rightarrow> first_some f xs)"

text \<open>
  Backtracking match of the atoms at position \<open>p\<close> of \<open>s\<close>: the positions reached
  after each atom, for the first way to match in the order a backtracking matcher
  tries them (a greedy repetition from the longest, a lazy one from the shortest).
\<close>

fun rmatch :: "atom list \<Rightarrow> string \<Rightarrow> nat \<Rightarrow> nat list option" where
  "rmatch [] s p = Some []"
| "rmatch (Lit l # as) s p =
     (if take (length l) (drop p s) = l
      then map_option (Cons (p + length l)) (rmatch as s (p + length l))
      else None)"
| "rmatch (Plus c # as) s p =
     first_some (\<lambda>k. map_option (Cons (p + k)) (rmatch as s (p + k)))
       (rev [1..<Suc (length (takeWhile c (drop p s)))])"
| "rmatch (Star c # as) s p =
     first_some (\<lambda>k. map_option (Cons (p + k)) (rmatch as s (p + k)))
       (rev [0..<Suc (length (takeWhile c (drop p s)))])"
| "rmatch (LazyStar c # as) s p =
     first_some (\<lambda>k. map_option (Cons (p + k)) (rmatch as s (p + k)))
       [0..<Suc (length (takeWhile c (drop p s)))]"
| "rmatch (Bol # as) s p =
     (if p = 0 \<or> is_line_terminator (s ! (p - 1))
      then map_option (Cons p) (rmatch as s p) else None)"
| "rmatch (Eol # as) s p =
     (if p \<ge> length s \<or> is_line_terminator (s ! p)
      then map_option (Cons p) (rmatch as s p) else None)"

text \<open>
  \<open>RegExp.prototype.exec\<close> from \<open>lastIndex\<close>: the first position, from there to the
  end of the text, at which the expression matches, with the positions after each atom.
\<close>

definition re_exec :: "atom list \<Rightarrow> string \<Rightarrow> nat \<Rightarrow> (nat \<times> nat list) option" where
  "re_exec re s lastIndex =
     first_some (\<lambda>p. map_option (Pair p) (rmatch re s p)) [lastIndex..<Suc (length s)]"

text \<open>The end of a match, and the text matched by atom \<open>k\<close> (a capture group).\<close>

definition match_end :: "nat \<times> nat list \<Rightarrow> nat" where
  "match_end m = last (fst m # snd m)"

definition piece :: "string \<Rightarrow> nat \<times> nat list \<Rightarrow> nat \<Rightarrow> string" where
  "piece s m k =
     (let bounds = fst m # snd m
      in take (bounds ! Suc k - bounds ! k) (drop (bounds ! k) s))"

text \<open>
  \<open>String.prototype.replace\<close> with an expression without the global flag and a
  replacement text that holds no \<open>$\<close>: the first match is replaced.
\<close>

definition re_replace :: "atom list \<Rightarrow> string \<Rightarrow> string \<Rightarrow> string" where
  "re_replace re s replacement =
     (case re_exec re s 0 of
        None \<Rightarrow> s
      | Some m \<Rightarrow> take (fst m) s @ replacement @ drop (match_end m) s)"

text \<open>\<open>split\<close> at a separator character, \<open>trim\<close>, \<open>join\<close>, \<open>substring\<close>.\<close>

fun split_on :: "char \<Rightarrow> string \<Rightarrow> string list" where
  "split_on d [] = [[]]"
| "split_on d (c # cs) =
     (if c = d then [] # split_on d cs
      else (case split_on d cs of
              [] \<Rightarrow> [[c]]
            | line # lines \<Rightarrow> (c # line) # lines))"

definition trim :: "string \<Rightarrow> string" where
  "trim s = rev (dropWhile is_space (rev (dropWhile is_space s)))"

fun join :: "string \<Rightarrow> string list \<Rightarrow> string" where
  "join sep [] = []"
| "join sep [x] = x"
| "join sep (x # y # ys) = x @ sep @ join sep (y # ys)"

definition substring :: "string \<Rightarrow> nat \<Rightarrow> nat \<Rightarrow> string" where
  "substring s a b =
     (let a' = min a (length s); b' = min b (length s);
          lo = min a' b'; hi = max a' b'
      in take (hi - lo) (drop lo s))"

text \<open>
  Numbers. A JavaScript number is a double: the integers up to \<open>2^53\<close> are doubles,
  and on them \<open>parseInt\<close> of a text of decimal digits, the sum and the decimal text of
  \<open>`${n}`\<close> are exact. The model computes with these. What lies beyond, it keeps as
  the expression that the code evaluates (the text parsed, the sum formed), and the text
  that the platform writes for such a value is a parameter \<open>numToString\<close> of the
  functions that write a number. \<open>exact n\<close> says that \<open>n\<close> is at most \<open>2^53\<close>.
\<close>

definition digit_value :: "char \<Rightarrow> nat" where
  "digit_value c = of_char c - 48"

definition decimal_value :: "string \<Rightarrow> nat" where
  "decimal_value ds = foldl (\<lambda>n c. 10 * n + digit_value c) 0 ds"

definition exact :: "nat \<Rightarrow> bool" where
  "exact n = (int n \<le> 2 ^ 53)"

datatype js_number = Exactly nat | ParsedBeyond string | SumBeyond js_number nat

definition parseInt :: "string \<Rightarrow> js_number" where
  "parseInt ds =
     (if exact (decimal_value ds) then Exactly (decimal_value ds) else ParsedBeyond ds)"

text \<open>\<open>x + array.length\<close>: the length of an array is below \<open>2^32\<close>.\<close>

fun add_length :: "js_number \<Rightarrow> nat \<Rightarrow> js_number" where
  "add_length (Exactly a) n =
     (if exact (a + n) then Exactly (a + n) else SumBeyond (Exactly a) n)"
| "add_length x n = SumBeyond x n"

definition digit_char :: "nat \<Rightarrow> char" where
  "digit_char d = ''0123456789'' ! d"

text \<open>The decimal digits of a natural number.\<close>

fun show_nat :: "nat \<Rightarrow> string" where
  "show_nat n = (if n < 10 then [digit_char n] else show_nat (n div 10) @ [digit_char (n mod 10)])"

declare show_nat.simps [simp del]

text \<open>\<open>`${x}`\<close> for a number \<open>x\<close>.\<close>

fun number_text :: "(js_number \<Rightarrow> string) \<Rightarrow> js_number \<Rightarrow> string" where
  "number_text numToString (Exactly n) =
     (if exact n then show_nat n else numToString (Exactly n))"
| "number_text numToString x = numToString x"


section \<open>teamsClient.js: paginated fetch\<close>

text \<open>
  The remote listing is the sequence of answers it gives to the successive page requests
  of one fetch: a page (\<open>response.data.value\<close>, newest first) or a failure. A page
  carries an \<open>@odata.nextLink\<close> exactly when another answer follows it.
\<close>

datatype response = Batch "message list" | HttpFailure nat | NoResponse

datatype fetch_error =
    InvalidTimeValue
  | SourceNotFound
  | PermissionDenied
  | GraphApiError
  | FailedToFetch

fun classify :: "response \<Rightarrow> fetch_error" where
  "classify (HttpFailure status) =
     (if status = 404 then SourceNotFound
      else if status = 403 then PermissionDenied
      else GraphApiError)"
| "classify _ = FailedToFetch"

text \<open>\<open>maxMessages && ...\<close>: \<open>null\<close> and \<open>0\<close> are falsy.\<close>

fun truthy :: "int option \<Rightarrow> bool" where
  "truthy None = False"
| "truthy (Some n) = (n \<noteq> 0)"

text \<open>
  The \<open>while (url)\<close> loop. The state is the \<open>messages\<close> array and the number of
  requests issued so far (\<open>fetchedCount\<close> is always \<open>messages.length\<close>); the
  result is that state at the loop's exit, or the error thrown. A request that the
  remote gives no answer to fails like one without a response.
\<close>

fun paginate :: "int option \<Rightarrow> response list \<Rightarrow> message list \<Rightarrow> nat
    \<Rightarrow> nat \<times> (fetch_error + message list)" where
  "paginate maxMessages [] messages requests = (Suc requests, Inl FailedToFetch)"
| "paginate maxMessages (Batch batch # rest) messages requests =
     (let messages' = messages @ batch;
          fetchedCount = int (length messages')
      in if truthy maxMessages \<and> fetchedCount \<ge> the maxMessages
         then (Suc requests, Inr messages')
         else if rest = [] then (Suc requests, Inr messages')
         else paginate maxMessages rest messages' (Suc requests))"
| "paginate maxMessages (r # rest) messages requests = (Suc requests, Inl (classify r))"

text \<open>\<open>Array.prototype.slice(start)\<close> with one argument.\<close>

definition slice_from :: "int \<Rightarrow> 'a list \<Rightarrow> 'a list" where
  "slice_from start xs =
     (let len = int (length xs);
          k = (if start < 0 then max (len + start) 0 else min start len)
      in drop (nat k) xs)"

definition trim_to_max :: "int option \<Rightarrow> message list \<Rightarrow> message list" where
  "trim_to_max maxMessages messages =
     (if truthy maxMessages \<and> int (length messages) > the maxMessages
      then slice_from (- the maxMessages) messages
      else messages)"

text \<open>
  \<open>fetchChatMessages\<close>: the cutoff \<open>sinceDate\<close> is only written into the query string
  of the first request (\<open>sinceDate.toISOString()\<close>, which throws on an invalid date,
  before the \<open>try\<close>); the pages received are accumulated whole, reversed and trimmed.
  The result is paired with the number of page requests issued.
\<close>

definition fetchChatMessages :: "int option \<Rightarrow> js_date option \<Rightarrow> response list
    \<Rightarrow> nat \<times> (fetch_error + message list)" where
  "fetchChatMessages maxMessages sinceDate remote =
     (if sinceDate = Some InvalidDate then (0, Inl InvalidTimeValue)
      else case paginate maxMessages remote [] 0 of
             (requests, Inl e) \<Rightarrow> (requests, Inl e)
           | (requests, Inr messages) \<Rightarrow>
               (requests, Inr (trim_to_max maxMessages (rev messages))))"

text \<open>\<open>fetchChannelMessages\<close> is the same loop (with progress logging).\<close>

definition fetchChannelMessages :: "int option \<Rightarrow> js_date option \<Rightarrow> response list
    \<Rightarrow> nat \<times> (fetch_error + message list)" where
  "fetchChannelMessages maxMessages sinceDate remote =
     (if sinceDate = Some InvalidDate then (0, Inl InvalidTimeValue)
      else case paginate maxMessages remote [] 0 of
             (pageCount, Inl e) \<Rightarrow> (pageCount, Inl e)
           | (pageCount, Inr messages) \<Rightarrow>
               (pageCount, Inr (trim_to_max maxMessages (rev messages))))"

section \<open>ragGenerator.js: rendering and grouping by date\<close>

text \<open>
  The rendering of one message (\<open>formatMessage\<close> with the member map and the
  timestamp option) is a parameter \<open>fmt\<close> of the model, and so is the locale's
  \<open>toLocaleDateString\<close>, from an instant to the text of its calendar date. The array
  \<open>parts\<close> is kept as a list of tagged parts, each rendered to the text the source
  pushes.
\<close>

datatype part = Heading string | Block message | Blank

fun render_part :: "(message \<Rightarrow> string) \<Rightarrow> part \<Rightarrow> string" where
  "render_part fmt (Heading title) = ''## '' @ title @ [CHR 0x0A]"
| "render_part fmt (Block msg) = fmt msg"
| "render_part fmt Blank = []"

text \<open>
  The objects \<open>grouped\<close> and \<open>dateObjects\<close>, with the order in which their keys
  were created.
\<close>

record grouping =
  group_keys :: "string list"
  grouped :: "string \<rightharpoonup> message list"
  dateObjects :: "string \<rightharpoonup> int"

definition no_groups :: grouping where
  "no_groups = \<lparr>group_keys = [], grouped = Map.empty, dateObjects = Map.empty\<rparr>"

definition add_to_group :: "(int \<Rightarrow> string) \<Rightarrow> message \<Rightarrow> grouping \<Rightarrow> grouping" where
  "add_to_group toLocaleDateString msg g =
     (let dateObj = createdDateTime msg;
          dateStr = toLocaleDateString dateObj;
          g1 = (if grouped g dateStr = None
                then g\<lparr>group_keys := group_keys g @ [dateStr],
                       grouped := (grouped g)(dateStr \<mapsto> []),
                       dateObjects := (dateObjects g)(dateStr \<mapsto> dateObj)\<rparr>
                else g)
      in g1\<lparr>grouped := (grouped g1)(dateStr \<mapsto> the (grouped g1 dateStr) @ [msg])\<rparr>)"

definition group_messages :: "(int \<Rightarrow> string) \<Rightarrow> message list \<Rightarrow> grouping" where
  "group_messages toLocaleDateString messages =
     fold (add_to_group toLocaleDateString) messages no_groups"

text \<open>
  \<open>Object.keys(grouped).sort((a, b) => dateObjects[a] - dateObjects[b])\<close>: the sort
  is stable. Two keys never compare equal (their first messages have different
  instants, having different dates), so the order in which \<open>Object.keys\<close> lists them
  does not show in the result.
\<close>

definition sortedDates :: "grouping \<Rightarrow> string list" where
  "sortedDates g = sort_key (\<lambda>date. the (dateObjects g date)) (group_keys g)"

definition grouped_parts :: "(int \<Rightarrow> string) \<Rightarrow> message list \<Rightarrow> part list" where
  "grouped_parts toLocaleDateString messages =
     (let g = group_messages toLocaleDateString messages
      in concat (map (\<lambda>date. Heading date # map Block (the (grouped g date)) @ [Blank])
                   (sortedDates g)))"

definition generateGroupedByDate :: "(int \<Rightarrow> string) \<Rightarrow> (message \<Rightarrow> string) \<Rightarrow> message list
    \<Rightarrow> string" where
  "generateGroupedByDate toLocaleDateString fmt messages =
     join [CHR 0x0A] (map (render_part fmt) (grouped_parts toLocaleDateString messages))"

text \<open>
  The text of the date sections in the output of \<open>generateGroupedByDate\<close>: the parts of
  each date joined, with the line feed that \<open>join\<close> puts between one section and the
  next. Put together, they are the output.
\<close>

fun with_separator :: "string \<Rightarrow> string list \<Rightarrow> string list" where
  "with_separator sep [] = []"
| "with_separator sep [x] = [x]"
| "with_separator sep (x # y # ys) = (x @ sep) # with_separator sep (y # ys)"

definition date_section_texts :: "(int \<Rightarrow> string) \<Rightarrow> (message \<Rightarrow> string) \<Rightarrow> message list
    \<Rightarrow> string list" where
  "date_section_texts toLocaleDateString fmt messages =
     (let g = group_messages toLocaleDateString messages
      in with_separator [CHR 0x0A]
           (map (\<lambda>date. join [CHR 0x0A]
                   (map (render_part fmt) (Heading date # map Block (the (grouped g date)) @ [Blank])))
              (sortedDates g)))"

definition sequential_parts :: "message list \<Rightarrow> part list" where
  "sequential_parts messages = Heading ''Chat Messages'' # map Block messages"

definition generateSequential :: "(message \<Rightarrow> string) \<Rightarrow> message list \<Rightarrow> string" where
  "generateSequential fmt messages =
     join [CHR 0x0A] (map (render_part fmt) (sequential_parts messages))"

text \<open>
  The date text of a message, and what the two objects hold once the messages
  \<open>msgs\<close> have been grouped: a key for each date that occurs, with the messages of that
  date in their input order and the instant of the first of them.
\<close>

definition date_key :: "(int \<Rightarrow> string) \<Rightarrow> message \<Rightarrow> string" where
  "date_key dstr m = dstr (createdDateTime m)"

definition group_inv :: "(int \<Rightarrow> string) \<Rightarrow> message list \<Rightarrow> grouping \<Rightarrow> bool" where
  "group_inv dstr msgs g =
     (distinct (group_keys g)
      \<and> set (group_keys g) = date_key dstr ` set msgs
      \<and> (\<forall>k. grouped g k =
            (if k \<in> date_key dstr ` set msgs
             then Some (filter (\<lambda>m. date_key dstr m = k) msgs) else None))
      \<and> (\<forall>k. dateObjects g k =
            (if k \<in> date_key dstr ` set msgs
             then Some (createdDateTime (hd (filter (\<lambda>m. date_key dstr m = k) msgs)))
             else None)))"


text \<open>
  \<open>generateHeader\<close> and \<open>generateRAGDocument\<close>. Of the chat metadata the header
  uses the topic, the chat type and the creation date, each when it is truthy (a string
  that is not empty); \<open>meta_created\<close> is the text \<open>toLocaleString\<close> gives for the
  creation date. \<open>messageCount\<close> is \<open>messages.length\<close>.
\<close>

record chat_metadata =
  meta_topic :: "string option"
  meta_chatType :: "string option"
  meta_created :: "string option"

record export_options =
  opt_includeMetadata :: bool
  opt_groupByDate :: bool
  opt_chatId :: "string option"
  opt_teamId :: "string option"
  opt_channelId :: "string option"

fun truthy_text :: "string option \<Rightarrow> bool" where
  "truthy_text None = False"
| "truthy_text (Some v) = (v \<noteq> [])"

definition header_first_lines :: "chat_metadata \<Rightarrow> export_options \<Rightarrow> string list" where
  "header_first_lines metadata options =
     [''# Teams Chat Export for RAG'', []]
     @ (if truthy_text (meta_topic metadata)
        then [''**Topic:** '' @ the (meta_topic metadata)] else [])
     @ (if truthy_text (meta_chatType metadata)
        then [''**Chat Type:** '' @ the (meta_chatType metadata)] else [])
     @ (if truthy_text (opt_teamId options) \<and> truthy_text (opt_channelId options)
        then [''**Source:** Channel (Team: '' @ take 8 (the (opt_teamId options))
                @ ''..., Channel: '' @ take 8 (the (opt_channelId options)) @ ''...)'']
        else if truthy_text (opt_chatId options)
        then [''**Source:** Chat ('' @ take 8 (the (opt_chatId options)) @ ''...)'']
        else [])"

definition header_mid_lines :: "chat_metadata \<Rightarrow> string list" where
  "header_mid_lines metadata =
     (if truthy_text (meta_created metadata)
      then [''**Created:** '' @ the (meta_created metadata)] else [])"

definition generateHeader :: "(js_number \<Rightarrow> string) \<Rightarrow> string \<Rightarrow> string \<Rightarrow> chat_metadata \<Rightarrow> nat
    \<Rightarrow> export_options \<Rightarrow> string" where
  "generateHeader numToString nowISO nowLocal metadata messageCount options =
     join [CHR 0x0A]
       (header_first_lines metadata options
        @ [''**Total Messages:** '' @ number_text numToString (Exactly messageCount)]
        @ header_mid_lines metadata
        @ [''**Last Run:** '' @ nowISO, ''**Last Run (Local):** '' @ nowLocal])"

definition generateRAGDocument :: "(int \<Rightarrow> string) \<Rightarrow> (message \<Rightarrow> string)
    \<Rightarrow> (js_number \<Rightarrow> string) \<Rightarrow> string \<Rightarrow> string
    \<Rightarrow> message list \<Rightarrow> chat_metadata \<Rightarrow> export_options \<Rightarrow> string" where
  "generateRAGDocument toLocaleDateString fmt numToString nowISO nowLocal messages metadata
       options =
     (if opt_includeMetadata options
      then generateHeader numToString nowISO nowLocal metadata (length messages) options
             @ [CHR 0x0A, CHR 0x0A] @ ''---'' @ [CHR 0x0A, CHR 0x0A]
      else [])
     @ (if opt_groupByDate options
        then generateGroupedByDate toLocaleDateString fmt messages
        else generateSequential fmt messages)"

section \<open>ragGenerator.js: reading and updating an export file\<close>

text \<open>The file system: the text of each file that exists.\<close>

type_synonym files = "string \<rightharpoonup> string"

definition exportFileExists :: "files \<Rightarrow> string \<Rightarrow> bool" where
  "exportFileExists fs outputPath = (fs outputPath \<noteq> None)"

definition lastRunRegex :: "atom list" where
  "lastRunRegex = [Lit ''**Last Run:**'', Plus is_space, Plus dot]"

definition sourceRegex :: "atom list" where
  "sourceRegex = [Lit ''**Source:**'', Plus is_space, Plus dot]"

definition totalMessagesRegex :: "atom list" where
  "totalMessagesRegex = [Lit ''**Total Messages:**'', Plus is_space, Plus is_digit]"

definition lastRunLocalRegex :: "atom list" where
  "lastRunLocalRegex = [Lit ''**Last Run (Local):**'', Plus is_space, Plus dot]"

record export_metadata =
  lastRun :: "js_date option"
  lastRunISO :: "string option"
  source :: "string option"
  totalMessages :: js_number

definition initial_metadata :: export_metadata where
  "initial_metadata =
     \<lparr>lastRun = None, lastRunISO = None, source = None, totalMessages = Exactly 0\<rparr>"

text \<open>
  The body of the loop over the header lines; \<open>Date\<close> is the constructor
  \<open>new Date(text)\<close>, which gives the invalid date for a text it cannot parse.
\<close>

definition parse_line :: "(string \<Rightarrow> js_date) \<Rightarrow> string \<Rightarrow> export_metadata \<Rightarrow> export_metadata" where
  "parse_line Date line metadata =
     (let m1 = (case re_exec lastRunRegex line 0 of
                  Some lastRunMatch \<Rightarrow>
                    metadata\<lparr>lastRunISO := Some (trim (piece line lastRunMatch 2)),
                             lastRun := Some (Date (trim (piece line lastRunMatch 2)))\<rparr>
                | None \<Rightarrow> metadata);
          m2 = (case re_exec sourceRegex line 0 of
                  Some sourceMatch \<Rightarrow> m1\<lparr>source := Some (trim (piece line sourceMatch 2))\<rparr>
                | None \<Rightarrow> m1)
      in (case re_exec totalMessagesRegex line 0 of
            Some messagesMatch \<Rightarrow> m2\<lparr>totalMessages := parseInt (piece line messagesMatch 2)\<rparr>
          | None \<Rightarrow> m2))"

fun parse_lines :: "(string \<Rightarrow> js_date) \<Rightarrow> string list \<Rightarrow> export_metadata \<Rightarrow> export_metadata" where
  "parse_lines Date [] metadata = metadata"
| "parse_lines Date (line # lines) metadata =
     (let metadata' = parse_line Date line metadata
      in if trim line = ''---'' then metadata' else parse_lines Date lines metadata')"

definition parseExistingExport :: "(string \<Rightarrow> js_date) \<Rightarrow> files \<Rightarrow> string
    \<Rightarrow> export_metadata option" where
  "parseExistingExport Date fs outputPath =
     (case fs outputPath of
        None \<Rightarrow> None
      | Some content \<Rightarrow> Some (parse_lines Date (split_on (CHR 0x0A) content) initial_metadata))"

text \<open>
  \<open>appendMessagesToExport\<close>. The three header rewrites are the successive values of
  \<open>updatedContent\<close>; \<open>nowISO\<close> and \<open>nowLocal\<close> are \<open>now.toISOString()\<close> and
  \<open>now.toLocaleString()\<close>. Reading a file that does not exist throws.
\<close>

datatype io_error = NoSuchFile

definition rewriteTotal :: "(js_number \<Rightarrow> string) \<Rightarrow> string \<Rightarrow> nat \<Rightarrow> string" where
  "rewriteTotal numToString existingContent n =
     (case re_exec totalMessagesRegex existingContent 0 of
        Some totalMessagesMatch \<Rightarrow>
          (let oldCount = parseInt (piece existingContent totalMessagesMatch 2);
               newCount = add_length oldCount n
           in re_replace totalMessagesRegex existingContent
                (''**Total Messages:** '' @ number_text numToString newCount))
      | None \<Rightarrow> existingContent)"

definition rewriteLastRun :: "string \<Rightarrow> string \<Rightarrow> string" where
  "rewriteLastRun updatedContent nowISO =
     re_replace lastRunRegex updatedContent (''**Last Run:** '' @ nowISO)"

definition rewriteLastRunLocal :: "string \<Rightarrow> string \<Rightarrow> string" where
  "rewriteLastRunLocal updatedContent nowLocal =
     re_replace lastRunLocalRegex updatedContent (''**Last Run (Local):** '' @ nowLocal)"

definition appendMessagesToExport :: "(int \<Rightarrow> string) \<Rightarrow> (message \<Rightarrow> string)
    \<Rightarrow> (js_number \<Rightarrow> string) \<Rightarrow> string \<Rightarrow> string
    \<Rightarrow> files \<Rightarrow> string \<Rightarrow> message list \<Rightarrow> bool \<Rightarrow> files \<times> (io_error + nat)" where
  "appendMessagesToExport toLocaleDateString fmt numToString nowISO nowLocal fs outputPath
       newMessages groupByDate =
     (if length newMessages = 0 then (fs, Inr 0)
      else case fs outputPath of
        None \<Rightarrow> (fs, Inl NoSuchFile)
      | Some existingContent \<Rightarrow>
          (let updated1 = rewriteTotal numToString existingContent (length newMessages);
               updated2 = rewriteLastRun updated1 nowISO;
               updated3 = rewriteLastRunLocal updated2 nowLocal;
               newContent = (if groupByDate
                             then generateGroupedByDate toLocaleDateString fmt newMessages
                             else generateSequential fmt newMessages);
               updatedContent = updated3 @ [CHR 0x0A] @ newContent
           in (fs(outputPath \<mapsto> updatedContent), Inr (length newMessages))))"

text \<open>
  The layout of an export file as \<open>generateRAGDocument\<close> writes it with its header:
  the header lines joined by line feeds, of which one holds the total-message count and
  the last two the last-run fields, then the separator \<open>'\n\n---\n\n'\<close>, then the
  body. \<open>firstLines\<close> are the header lines before the count (title, topic, chat type,
  source) and \<open>midLines\<close> those after it (the creation date).
\<close>

definition header_lines :: "string list \<Rightarrow> nat \<Rightarrow> string list \<Rightarrow> string \<Rightarrow> string
    \<Rightarrow> string list" where
  "header_lines firstLines n midLines runISO runLocal =
     firstLines @ [''**Total Messages:** '' @ show_nat n] @ midLines
       @ [''**Last Run:** '' @ runISO, ''**Last Run (Local):** '' @ runLocal]"

definition export_text :: "string list \<Rightarrow> nat \<Rightarrow> string list \<Rightarrow> string \<Rightarrow> string \<Rightarrow> string
    \<Rightarrow> string" where
  "export_text firstLines n midLines runISO runLocal body =
     join [CHR 0x0A] (header_lines firstLines n midLines runISO runLocal)
       @ [CHR 0x0A, CHR 0x0A] @ ''---'' @ [CHR 0x0A, CHR 0x0A] @ body"

text \<open>The text of a list of lines, each ended by a line feed.\<close>

definition lines_text :: "string list \<Rightarrow> string" where
  "lines_text ls = concat (map (\<lambda>l. l @ [CHR 0x0A]) ls)"

text \<open>
  When such a header is well formed. Its other lines are lines (they hold no line feed),
  none of them is a separator line, and only the count line holds a total-message
  field. The two last-run values are not empty, do not start with white space, stay on
  their line and hold no \<open>$\<close> (which \<open>replace\<close> reads as a pattern in the text it
  puts in). And no text before a field reads as that field to the expression that
  searches for it: not the lines before the count line up to its label, not those lines
  with the count line (whatever the count, a digit follows the label), and not the lines
  after the count line up to the label of the field searched for.
\<close>

definition header_line :: "string \<Rightarrow> bool" where
  "header_line l = (CHR 0x0A \<notin> set l \<and> trim l \<noteq> ''---'')"

definition field_value :: "string \<Rightarrow> bool" where
  "field_value v =
     (v \<noteq> [] \<and> \<not> is_space (hd v) \<and> (\<forall>c \<in> set v. dot c) \<and> CHR ''$'' \<notin> set v)"

definition well_formed_header :: "string list \<Rightarrow> string list \<Rightarrow> string \<Rightarrow> string \<Rightarrow> bool" where
  "well_formed_header firstLines midLines runISO runLocal =
     ((\<forall>l \<in> set (firstLines @ midLines). header_line l)
      \<and> (\<forall>l \<in> set midLines. re_exec totalMessagesRegex l 0 = None)
      \<and> field_value runISO \<and> field_value runLocal
      \<and> re_exec totalMessagesRegex (''**Last Run:** '' @ runISO) 0 = None
      \<and> re_exec totalMessagesRegex (''**Last Run (Local):** '' @ runLocal) 0 = None
      \<and> re_exec totalMessagesRegex (lines_text firstLines @ ''**Total Messages:**'') 0 = None
      \<and> re_exec lastRunRegex (lines_text firstLines @ ''**Total Messages:** 0'') 0 = None
      \<and> re_exec lastRunRegex ([CHR 0x0A] @ lines_text midLines @ ''**Last Run:**'') 0 = None
      \<and> re_exec lastRunLocalRegex (lines_text firstLines @ ''**Total Messages:** 0'') 0 = None
      \<and> re_exec lastRunLocalRegex
           ([CHR 0x0A] @ lines_text midLines @ ''**Last Run:** '' @ runISO @ [CHR 0x0A]
              @ ''**Last Run (Local):**'') 0 = None)"

text \<open>The length of the run of characters of a class from a position of a text.\<close>

definition run :: "(char \<Rightarrow> bool) \<Rightarrow> string \<Rightarrow> nat \<Rightarrow> nat" where
  "run P s q = length (takeWhile P (drop q s))"

section \<open>index.js: incremental detection and fetch of the generate command\<close>

text \<open>
  Step 4 of the \<open>generate\<close> action: an existing export with a truthy \<open>lastRun\<close>
  (every \<open>Date\<close> object is truthy, the invalid date too) makes the run incremental
  and gives the cutoff.
\<close>

definition detectIncremental :: "(string \<Rightarrow> js_date) \<Rightarrow> files \<Rightarrow> string
    \<Rightarrow> bool \<times> js_date option" where
  "detectIncremental Date fs outputPath =
     (if exportFileExists fs outputPath
      then (case parseExistingExport Date fs outputPath of
              None \<Rightarrow> (False, None)
            | Some existingExport \<Rightarrow>
                (case lastRun existingExport of
                   None \<Rightarrow> (False, None)
                 | Some d \<Rightarrow> (True, Some d)))
      else (False, None))"

text \<open>
  The fetch that follows: a throw of the fetch function is caught, reported and ends
  the process with code 1; no message ends it with code 0; otherwise the run goes on
  to write, incrementally or not, the messages fetched.
\<close>

datatype fetch_outcome = ProcessExit nat | Fetched bool "message list"

definition fetchStep :: "(string \<Rightarrow> js_date) \<Rightarrow> files \<Rightarrow> string \<Rightarrow> bool \<Rightarrow> int option
    \<Rightarrow> response list \<Rightarrow> nat \<times> fetch_outcome" where
  "fetchStep Date fs outputPath isChannel maxMessages remote =
     (let (isIncremental, sinceDate) = detectIncremental Date fs outputPath;
          (requests, result) =
             (if isChannel then fetchChannelMessages maxMessages sinceDate remote
              else fetchChatMessages maxMessages sinceDate remote)
      in case result of
           Inl err \<Rightarrow> (requests, ProcessExit 1)
         | Inr messages \<Rightarrow>
             if length messages = 0 then (requests, ProcessExit 0)
             else (requests, Fetched isIncremental messages))"

section \<open>ragOptimizer.js: splitIntoChunks\<close>

definition dateSectionRegex :: "atom list" where
  "dateSectionRegex =
     [Bol, Lit ''## '', Plus is_digit, Lit ''/'', Plus is_digit, Lit ''/'', Plus is_digit, Eol]"


text \<open>
  Facts about matching, needed to see that the \<open>exec\<close> loop over the date markers
  ends: a match of the marker is not empty and lies within the text.
\<close>

lemma first_some_SomeD:
  "first_some f xs = Some y \<Longrightarrow> \<exists>x \<in> set xs. f x = Some y"
  by (induction xs) (auto split: option.splits)

lemma takeWhile_drop_le: "p + length (takeWhile c (drop p s)) \<le> max p (length s)"
proof -
  have "length (takeWhile c (drop p s)) \<le> length (drop p s)"
    by (rule length_takeWhile_le)
  then show ?thesis by simp
qed

lemma rmatch_bounds:
  "rmatch re s p = Some bs \<Longrightarrow> p \<le> length s \<Longrightarrow>
     p \<le> last (p # bs) \<and> last (p # bs) \<le> length s"
proof (induction re arbitrary: p bs)
  case Nil
  then show ?case by simp
next
  case (Cons a as)
  have rep: "p \<le> last (p # bs) \<and> last (p # bs) \<le> length s"
    if "first_some (\<lambda>k. map_option (Cons (p + k)) (rmatch as s (p + k))) ks = Some bs"
      and "\<forall>k \<in> set ks. k \<le> length (takeWhile c (drop p s))" for ks c
  proof -
    from first_some_SomeD [OF that(1)] obtain k bs' where k: "k \<in> set ks"
      and bs: "bs = (p + k) # bs'" and m: "rmatch as s (p + k) = Some bs'"
      by auto
    from k that(2) have "k \<le> length (takeWhile c (drop p s))" by simp
    with takeWhile_drop_le [of p c s] Cons.prems(2) have le: "p + k \<le> length s" by simp
    from Cons.IH [OF m le] show ?thesis by (simp add: bs)
  qed
  show ?case
  proof (cases a)
    case (Lit l)
    with Cons.prems obtain bs' where eq: "take (length l) (drop p s) = l"
      and bs: "bs = (p + length l) # bs'" and m: "rmatch as s (p + length l) = Some bs'"
      by (auto split: if_splits)
    have "length (take (length l) (drop p s)) = length l" by (simp only: eq)
    then have le: "p + length l \<le> length s" using Cons.prems(2) by simp
    from Cons.IH [OF m le] show ?thesis by (simp add: bs)
  next
    case (Plus c)
    with Cons.prems(1)
    have "first_some (\<lambda>k. map_option (Cons (p + k)) (rmatch as s (p + k)))
       (rev [1..<Suc (length (takeWhile c (drop p s)))]) = Some bs"
      by (simp only: rmatch.simps)
    then show ?thesis by (rule rep) auto
  next
    case (Star c)
    with Cons.prems(1)
    have "first_some (\<lambda>k. map_option (Cons (p + k)) (rmatch as s (p + k)))
       (rev [0..<Suc (length (takeWhile c (drop p s)))]) = Some bs"
      by (simp only: rmatch.simps)
    then show ?thesis by (rule rep) auto
  next
    case (LazyStar c)
    with Cons.prems(1)
    have "first_some (\<lambda>k. map_option (Cons (p + k)) (rmatch as s (p + k)))
       ([0..<Suc (length (takeWhile c (drop p s)))]) = Some bs"
      by (simp only: rmatch.simps)
    then show ?thesis by (rule rep) auto
  next
    case Bol
    with Cons.prems obtain bs' where bs: "bs = p # bs'" and m: "rmatch as s p = Some bs'"
      by (auto split: if_splits)
    from Cons.IH [OF m Cons.prems(2)] show ?thesis by (simp add: bs)
  next
    case Eol
    with Cons.prems obtain bs' where bs: "bs = p # bs'" and m: "rmatch as s p = Some bs'"
      by (auto split: if_splits)
    from Cons.IH [OF m Cons.prems(2)] show ?thesis by (simp add: bs)
  qed
qed

lemma re_exec_SomeD:
  "re_exec re s i = Some m \<Longrightarrow>
     i \<le> fst m \<and> fst m \<le> length s \<and> rmatch re s (fst m) = Some (snd m)"
  unfolding re_exec_def by (auto dest!: first_some_SomeD)

lemma rmatch_Bol_Lit:
  "rmatch (Bol # Lit l # as) s p = Some bs \<Longrightarrow>
     \<exists>bs'. bs = p # (p + length l) # bs' \<and> rmatch as s (p + length l) = Some bs'
        \<and> take (length l) (drop p s) = l"
  by (auto split: if_splits)

lemma date_match_progress:
  assumes "rmatch dateSectionRegex s p = Some bs" and "p \<le> length s"
  shows "p < last (p # bs) \<and> last (p # bs) \<le> length s"
proof -
  have "dateSectionRegex = Bol # Lit ''## '' # tl (tl dateSectionRegex)"
    by (simp add: dateSectionRegex_def)
  with assms(1) have "rmatch (Bol # Lit ''## '' # tl (tl dateSectionRegex)) s p = Some bs"
    by simp
  from rmatch_Bol_Lit [OF this] obtain bs' where bs: "bs = p # (p + length ''## '') # bs'"
    and m: "rmatch (tl (tl dateSectionRegex)) s (p + length ''## '') = Some bs'"
    and eq: "take (length ''## '') (drop p s) = ''## ''"
    by blast
  have "length (take (length ''## '') (drop p s)) = length ''## ''" by (simp only: eq)
  then have le: "p + length ''## '' \<le> length s" by simp
  from rmatch_bounds [OF m le] show ?thesis by (simp add: bs)
qed


text \<open>
  The loop \<open>while ((match = regex.exec(content)) !== null)\<close>: the indices of the
  successive matches, each search starting at the end of the match before
  (\<open>lastIndex\<close>).
\<close>

function matches_from :: "string \<Rightarrow> nat \<Rightarrow> nat list" where
  "matches_from content lastIndex =
     (case re_exec dateSectionRegex content lastIndex of
        None \<Rightarrow> []
      | Some m \<Rightarrow> fst m # matches_from content (match_end m))"
  by pat_completeness auto
termination
proof (relation "measure (\<lambda>(content, lastIndex). Suc (length content) - lastIndex)")
  show "wf (measure (\<lambda>(content, lastIndex). Suc (length content) - lastIndex))" by simp
next
  fix content lastIndex m
  assume "re_exec dateSectionRegex content lastIndex = Some m"
  from re_exec_SomeD [OF this]
  have i: "lastIndex \<le> fst m" and l: "fst m \<le> length content"
    and r: "rmatch dateSectionRegex content (fst m) = Some (snd m)" by auto
  from date_match_progress [OF r l]
  have "fst m < match_end m" and "match_end m \<le> length content"
    unfolding match_end_def by blast+
  with i show "((content, match_end m), (content, lastIndex))
      \<in> measure (\<lambda>(content, lastIndex). Suc (length content) - lastIndex)"
    by simp
qed

declare matches_from.simps [simp del]


text \<open>The loop that cuts \<open>content\<close> at the indices of the matches.\<close>

fun extract_sections :: "string \<Rightarrow> nat list \<Rightarrow> string list" where
  "extract_sections content [] = []"
| "extract_sections content [start] = [substring content start (length content)]"
| "extract_sections content (start # next # rest) =
     substring content start next # extract_sections content (next # rest)"

text \<open>The loop that packs the sections; its state is \<open>chunks\<close> and \<open>currentChunk\<close>.\<close>

fun combine :: "int \<Rightarrow> string list \<Rightarrow> string list \<Rightarrow> string \<Rightarrow> string list" where
  "combine maxChunkSize [] chunks currentChunk =
     (if length currentChunk > 0 then chunks @ [currentChunk] else chunks)"
| "combine maxChunkSize (section # rest) chunks currentChunk =
     (if int (length currentChunk) + int (length section) > maxChunkSize
         \<and> length currentChunk > 0
      then combine maxChunkSize rest (chunks @ [currentChunk]) section
      else combine maxChunkSize rest chunks (currentChunk @ section))"

definition sections_of :: "string \<Rightarrow> string list" where
  "sections_of content = extract_sections content (matches_from content 0)"

definition splitIntoChunks :: "string \<Rightarrow> int \<Rightarrow> string list" where
  "splitIntoChunks content maxChunkSize =
     (let chunks = combine maxChunkSize (sections_of content) [] []
      in if length chunks > 0 then chunks else [content])"

text \<open>
  The indices at which the texts of a list start when they are laid end to end from
  index \<open>p\<close>.
\<close>

fun section_starts :: "nat \<Rightarrow> string list \<Rightarrow> nat list" where
  "section_starts p [] = []"
| "section_starts p (sec # secs) = p # section_starts (p + length sec) secs"

section \<open>ragOptimizer.js: parseClaudeResponse\<close>

definition fencedJsonRegex :: "atom list" where
  "fencedJsonRegex =
     [Lit ''```json'', Star is_space, LazyStar any_char, Star is_space, Lit ''```'']"

definition fencedRegex :: "atom list" where
  "fencedRegex = [Lit ''```'', Star is_space, LazyStar any_char, Star is_space, Lit ''```'']"

definition jsonString :: "string \<Rightarrow> string" where
  "jsonString response =
     (case re_exec fencedJsonRegex response 0 of
        Some jsonMatch \<Rightarrow> piece response jsonMatch 2
      | None \<Rightarrow>
          (case re_exec fencedRegex response 0 of
             Some jsonMatch \<Rightarrow> piece response jsonMatch 2
           | None \<Rightarrow> response))"

text \<open>
  \<open>JSON_parse\<close> is \<open>JSON.parse\<close>: the value of a JSON text, none for a text that
  is not JSON (a \<open>SyntaxError\<close>). The result is the parsed value with the chunk index.
\<close>

datatype chunk_error = ServiceFailure | FailedToParse

definition parseClaudeResponse :: "(string \<Rightarrow> 'j option) \<Rightarrow> string \<Rightarrow> nat
    \<Rightarrow> chunk_error + ('j \<times> nat)" where
  "parseClaudeResponse JSON_parse response chunkIndex =
     (case JSON_parse (jsonString response) of
        None \<Rightarrow> Inl FailedToParse
      | Some parsed \<Rightarrow> Inr (parsed, chunkIndex))"

text \<open>
  \<open>processChunkWithClaude\<close>: \<open>service\<close> is the request to the extraction service
  for a chunk (none when the request throws); every error is thrown on.
\<close>

definition processChunkWithClaude :: "(string \<Rightarrow> string option) \<Rightarrow> (string \<Rightarrow> 'j option)
    \<Rightarrow> string \<Rightarrow> nat \<Rightarrow> nat \<Rightarrow> chunk_error + ('j \<times> nat)" where
  "processChunkWithClaude service JSON_parse chunk chunkIndex totalChunks =
     (case service chunk of
        None \<Rightarrow> Inl ServiceFailure
      | Some result \<Rightarrow> parseClaudeResponse JSON_parse result chunkIndex)"

section \<open>ragOptimizer.js: per-chunk results and their aggregation\<close>

text \<open>
  The object \<open>parseClaudeResponse\<close> returns for one chunk. Every collection of the
  reply may be missing (\<open>chunk.topics?.forEach\<close>, \<open>chunk.decisions || []\<close>).
\<close>

record decision =
  dec_summary :: string
  dec_details :: string
  dec_participants :: "string list option"

record action_item =
  act_task :: string
  act_owner :: "string option"
  act_context :: string

record context_summary =
  ctx_timeframe :: "string option"
  ctx_topic :: string
  ctx_summary :: string
  ctx_keyPoints :: "string list option"

record technical_detail =
  tech_type :: string
  tech_content :: string
  tech_context :: string

record extraction =
  topics :: "string list option"
  decisions :: "decision list option"
  actionItems :: "action_item list option"
  contextSummaries :: "context_summary list option"
  technicalDetails :: "technical_detail list option"
  chunkIndex :: nat

text \<open>\<open>x || []\<close> on a collection that may be missing.\<close>

fun or_empty :: "'a list option \<Rightarrow> 'a list" where
  "or_empty None = []"
| "or_empty (Some xs) = xs"

text \<open>
  A JavaScript \<open>Set\<close> of strings keeps its elements in insertion order;
  \<open>Array.from\<close> reads them in that order.
\<close>

definition set_add :: "string \<Rightarrow> string list \<Rightarrow> string list" where
  "set_add t elems = (if t \<in> set elems then elems else elems @ [t])"

text \<open>The three \<open>forEach\<close> loops and two \<open>flatMap\<close>s of \<open>generateStructuredOutput\<close>.\<close>

definition allTopics :: "extraction list \<Rightarrow> string list" where
  "allTopics processedChunks =
     fold (\<lambda>chunk acc. fold set_add (or_empty (topics chunk)) acc) processedChunks []"

definition allDecisions :: "extraction list \<Rightarrow> decision list" where
  "allDecisions processedChunks =
     fold (\<lambda>chunk acc. acc @ or_empty (decisions chunk)) processedChunks []"

definition allActionItems :: "extraction list \<Rightarrow> action_item list" where
  "allActionItems processedChunks =
     fold (\<lambda>chunk acc. acc @ or_empty (actionItems chunk)) processedChunks []"

definition flatMap :: "('a \<Rightarrow> 'b list) \<Rightarrow> 'a list \<Rightarrow> 'b list" where
  "flatMap f xs = foldl (\<lambda>acc x. acc @ f x) [] xs"

definition allContextSummaries :: "extraction list \<Rightarrow> context_summary list" where
  "allContextSummaries processedChunks =
     flatMap (\<lambda>chunk. or_empty (contextSummaries chunk)) processedChunks"

definition allTechnicalDetails :: "extraction list \<Rightarrow> technical_detail list" where
  "allTechnicalDetails processedChunks =
     flatMap (\<lambda>chunk. or_empty (technicalDetails chunk)) processedChunks"

text \<open>
  The processing loop of \<open>optimizeForRAG\<close>: chunk \<open>i\<close> is sent with its index,
  the result is pushed, and a throw of \<open>processChunkWithClaude\<close> ends the run.
  \<open>process chunk i totalChunks\<close> stands for that call.
\<close>

fun processLoop :: "(string \<Rightarrow> nat \<Rightarrow> nat \<Rightarrow> 'e + 'r) \<Rightarrow> nat \<Rightarrow> nat
    \<Rightarrow> string list \<Rightarrow> 'r list \<Rightarrow> 'e + 'r list" where
  "processLoop process totalChunks i [] processedChunks = Inr processedChunks"
| "processLoop process totalChunks i (chunk # rest) processedChunks =
     (case process chunk i totalChunks of
        Inl err \<Rightarrow> Inl err
      | Inr processed \<Rightarrow>
          processLoop process totalChunks (Suc i) rest (processedChunks @ [processed]))"

definition processAllChunks :: "(string \<Rightarrow> nat \<Rightarrow> nat \<Rightarrow> 'e + 'r) \<Rightarrow> string list
    \<Rightarrow> 'e + 'r list" where
  "processAllChunks process chunks = processLoop process (length chunks) 0 chunks []"

text \<open>
  Set union that keeps the order of first occurrence, as a specification: the last
  occurrences of the reversed list, reversed.
\<close>

definition first_occurrences :: "'a list \<Rightarrow> 'a list" where
  "first_occurrences xs = rev (remdups (rev xs))"

section \<open>Example inputs\<close>

text \<open>
  Concrete messages, replies and files on which the functions are run. For the platform
  functions that are parameters of the model the examples use stand-ins that answer as
  the platform does on the texts the examples give them: \<open>example_Date\<close> knows one
  ISO instant and parses nothing else, \<open>parse_only doc\<close> accepts the JSON text
  \<open>doc\<close> and rejects every other text, \<open>example_day\<close> puts the instants before
  100 on one day and the others on the next.
\<close>

definition old_msg :: message where
  "old_msg = \<lparr>msg_id = ''m1'', createdDateTime = 5, msg_body = ''old''\<rparr>"

definition older_msg :: message where
  "older_msg = \<lparr>msg_id = ''m0'', createdDateTime = 3, msg_body = ''older''\<rparr>"

definition chunk_result :: "string list \<Rightarrow> string \<Rightarrow> nat \<Rightarrow> extraction" where
  "chunk_result ts d i =
     \<lparr>topics = Some ts,
      decisions = Some [\<lparr>dec_summary = d, dec_details = [], dec_participants = None\<rparr>],
      actionItems = None, contextSummaries = None, technicalDetails = None,
      chunkIndex = i\<rparr>"

definition echo_service :: "string \<Rightarrow> nat \<Rightarrow> nat \<Rightarrow> unit + extraction" where
  "echo_service chunk i n = Inr (chunk_result [chunk, ''shared''] chunk i)"

definition example_Date :: "string \<Rightarrow> js_date" where
  "example_Date text =
     (if text = ''2025-10-06T15:52:35.000Z'' then ValidDate 1759765955000 else InvalidDate)"

definition damaged_export :: string where
  "damaged_export =
     ''**Total Messages:** 5'' @ [CHR 0x0A] @ ''**Last Run:** yesterday'' @ [CHR 0x0A]
       @ [CHR 0x0A] @ ''---'' @ [CHR 0x0A]"

definition bare_reply :: string where
  \<open>bare_reply = ''{"topics":["```a```"]}''\<close>

definition fenced_reply :: string where
  \<open>fenced_reply =
     ''```json'' @ [CHR 0x0A] @ ''{"topics":["```a```"]}'' @ [CHR 0x0A] @ ''```''\<close>

definition parse_only :: "string \<Rightarrow> string \<Rightarrow> string option" where
  "parse_only doc text = (if text = doc then Some text else None)"

definition two_sections :: string where
  "two_sections =
     ''header'' @ [CHR 0x0A] @ ''## 1/2/2025'' @ [CHR 0x0A] @ ''a'' @ [CHR 0x0A]
       @ ''## 1/3/2025'' @ [CHR 0x0A] @ ''b''"


definition example_day :: "int \<Rightarrow> string" where
  "example_day t = (if t < 100 then ''9/30/2025'' else ''10/1/2025'')"

definition msg_at :: "int \<Rightarrow> message" where
  "msg_at t = \<lparr>msg_id = ''m'', createdDateTime = t, msg_body = ''hi''\<rparr>"


definition example_fmt :: "message \<Rightarrow> string" where
  "example_fmt msg = ''**User**'' @ [CHR 0x0A] @ msg_body msg @ [CHR 0x0A]"

definition heading_msg :: message where
  "heading_msg = \<lparr>msg_id = ''m'', createdDateTime = 50, msg_body = ''## 3/4/2025''\<rparr>"

definition dated_export :: string where
  "dated_export =
     ''# Export'' @ [CHR 0x0A, CHR 0x0A]
       @ generateGroupedByDate example_day example_fmt [msg_at 50, msg_at 150]"

definition generated_export :: string where
  "generated_export = export_text [] 10 [] ''2025-10-06T15:52:35.000Z'' ''10/6/2025'' []"

definition example_numToString :: "js_number \<Rightarrow> string" where
  "example_numToString x = ''Infinity''"

definition example_metadata :: chat_metadata where
  "example_metadata =
     \<lparr>meta_topic = Some ''Q3'', meta_chatType = None, meta_created = Some ''9/30/2025''\<rparr>"

definition example_options :: export_options where
  "example_options =
     \<lparr>opt_includeMetadata = True, opt_groupByDate = True,
      opt_chatId = None, opt_teamId = None, opt_channelId = None\<rparr>"

definition first_export :: string where
  "first_export =
     generateRAGDocument example_day example_fmt example_numToString
       ''2025-10-06T15:52:35.000Z'' ''10/6/2025'' [msg_at 50]
       example_metadata example_options"

definition topic_count_export :: string where
  "topic_count_export =
     ''**Topic:** **Total Messages:** 7'' @ [CHR 0x0A] @ generated_export"

definition overrun_export :: string where
  "overrun_export =
     ''**Last Run:**'' @ [CHR 0x0A] @ ''**Total Messages:** 5'' @ [CHR 0x0A]
       @ [CHR 0x0A] @ ''---'' @ [CHR 0x0A]"


section \<open>Properties\<close>

subsection \<open>Aggregation\<close>

lemma fold_append_concat: "fold (\<lambda>x acc. acc @ f x) xs a = a @ concat (map f xs)"
  by (induction xs arbitrary: a) auto

lemma foldl_append_concat: "foldl (\<lambda>acc x. acc @ f x) a xs = a @ concat (map f xs)"
  by (induction xs arbitrary: a) auto

lemma remdups_snoc: "remdups (xs @ [t]) = filter (\<lambda>x. x \<noteq> t) (remdups xs) @ [t]"
  by (induction xs) auto

lemma first_occurrences_Cons:
  "first_occurrences (t # ys) = t # filter (\<lambda>x. x \<noteq> t) (first_occurrences ys)"
  by (simp add: first_occurrences_def remdups_snoc rev_filter)

lemma first_occurrences_filter:
  "filter Q (first_occurrences xs) = first_occurrences (filter Q xs)"
  by (simp add: first_occurrences_def rev_filter remdups_filter)

lemma fold_set_add:
  "fold set_add ts acc = acc @ first_occurrences (filter (\<lambda>t. t \<notin> set acc) ts)"
proof (induction ts arbitrary: acc)
  case Nil
  then show ?case by (simp add: first_occurrences_def)
next
  case (Cons t ts)
  show ?case
  proof (cases "t \<in> set acc")
    case True
    then show ?thesis using Cons.IH [of acc] by (simp add: set_add_def)
  next
    case False
    have "fold set_add (t # ts) acc = fold set_add ts (acc @ [t])"
      using False by (simp add: set_add_def)
    also have "\<dots> = (acc @ [t]) @ first_occurrences (filter (\<lambda>x. x \<notin> set (acc @ [t])) ts)"
      by (rule Cons.IH)
    also have "filter (\<lambda>x. x \<notin> set (acc @ [t])) ts
        = filter (\<lambda>x. x \<noteq> t) (filter (\<lambda>x. x \<notin> set acc) ts)"
      by (induction ts) auto
    finally show ?thesis
      using False by (simp add: first_occurrences_Cons first_occurrences_filter)
  qed
qed

lemma fold_fold_set_add:
  "fold (\<lambda>c acc. fold set_add (f c) acc) cs acc = fold set_add (concat (map f cs)) acc"
  by (induction cs arbitrary: acc) auto

lemma allTopics_first_occurrences:
  "allTopics rs = first_occurrences (concat (map (\<lambda>c. or_empty (topics c)) rs))"
proof -
  have "allTopics rs = fold set_add (concat (map (\<lambda>c. or_empty (topics c)) rs)) []"
    unfolding allTopics_def by (rule fold_fold_set_add)
  then show ?thesis by (simp add: fold_set_add)
qed

lemma processLoop_ok:
  "processLoop process tot i chunks acc = Inr rs \<Longrightarrow>
   length rs = length acc + length chunks \<and> take (length acc) rs = acc \<and>
   (\<forall>k < length chunks. process (chunks ! k) (i + k) tot = Inr (rs ! (length acc + k)))"
proof (induction chunks arbitrary: i acc)
  case Nil then show ?case by simp
next
  case (Cons c cs)
  from Cons.prems obtain r where r: "process c i tot = Inr r"
    and loop: "processLoop process tot (Suc i) cs (acc @ [r]) = Inr rs"
    by (auto split: sum.splits)
  from Cons.IH [OF loop] have len: "length rs = length acc + 1 + length cs"
    and tk: "take (length acc + 1) rs = acc @ [r]"
    and rest: "\<forall>k<length cs. process (cs ! k) (Suc i + k) tot = Inr (rs ! (length acc + 1 + k))"
    by auto
  have "take (length acc) (take (length acc + 1) rs) = take (length acc) (acc @ [r])"
    by (simp only: tk)
  then have tk': "take (length acc) rs = acc" by simp
  have "(take (length acc + 1) rs) ! length acc = (acc @ [r]) ! length acc"
    by (simp only: tk)
  then have r': "rs ! length acc = r" by simp
  show ?case
  proof (intro conjI allI impI)
    show "length rs = length acc + length (c # cs)" using len by simp
    show "take (length acc) rs = acc" by (rule tk')
    fix k assume "k < length (c # cs)"
    then show "process ((c # cs) ! k) (i + k) tot = Inr (rs ! (length acc + k))"
      using r r' rest by (cases k) auto
  qed
qed

text \<open>
  C9. The aggregate of \<open>generateStructuredOutput\<close> is built in the order of the
  processed chunks: the topics are the union of the chunks' topics in the order of
  first occurrence (no topic twice), and the decisions, action items, context summaries
  and technical details are the concatenation of the chunks' lists, chunk after chunk.
  The processing loop of \<open>optimizeForRAG\<close> fills the list of processed chunks in chunk
  order: when it returns, entry \<open>k\<close> is the result for chunk \<open>k\<close>.
\<close>

theorem C9_aggregate_follows_chunk_order:
  "allTopics rs = first_occurrences (concat (map (\<lambda>c. or_empty (topics c)) rs))
   \<and> distinct (allTopics rs)
   \<and> set (allTopics rs) = (\<Union>c \<in> set rs. set (or_empty (topics c)))
   \<and> allDecisions rs = concat (map (\<lambda>c. or_empty (decisions c)) rs)
   \<and> allActionItems rs = concat (map (\<lambda>c. or_empty (actionItems c)) rs)
   \<and> allContextSummaries rs = concat (map (\<lambda>c. or_empty (contextSummaries c)) rs)
   \<and> allTechnicalDetails rs = concat (map (\<lambda>c. or_empty (technicalDetails c)) rs)
   \<and> (processAllChunks process chunks = Inr rs \<longrightarrow>
        length rs = length chunks
        \<and> (\<forall>k < length chunks. process (chunks ! k) k (length chunks) = Inr (rs ! k)))"
proof -
  have t: "allTopics rs = first_occurrences (concat (map (\<lambda>c. or_empty (topics c)) rs))"
    by (rule allTopics_first_occurrences)
  have d: "distinct (allTopics rs)"
    by (simp add: t first_occurrences_def)
  have s: "set (allTopics rs) = (\<Union>c \<in> set rs. set (or_empty (topics c)))"
    by (simp add: t first_occurrences_def)
  have p: "processAllChunks process chunks = Inr rs \<longrightarrow>
        length rs = length chunks
        \<and> (\<forall>k < length chunks. process (chunks ! k) k (length chunks) = Inr (rs ! k))"
    using processLoop_ok [of process "length chunks" 0 chunks "[]" rs]
    by (simp add: processAllChunks_def)
  show ?thesis
    using t d s p
    by (simp add: allDecisions_def allActionItems_def allContextSummaries_def
        allTechnicalDetails_def flatMap_def fold_append_concat foldl_append_concat)
qed

theorem C9_aggregate_follows_chunk_order_witness:
  "allTopics [chunk_result [''a'', ''shared''] ''a'' 0, chunk_result [''b'', ''shared''] ''b'' 1]
     = [''a'', ''shared'', ''b'']
   \<and> map dec_summary
        (allDecisions [chunk_result [''a'', ''shared''] ''a'' 0, chunk_result [''b'', ''shared''] ''b'' 1])
     = [''a'', ''b'']
   \<and> processAllChunks echo_service [''a'', ''b'']
     = Inr [chunk_result [''a'', ''shared''] ''a'' 0, chunk_result [''b'', ''shared''] ''b'' 1]"
proof -
  have run: "processAllChunks echo_service [''a'', ''b'']
     = Inr [chunk_result [''a'', ''shared''] ''a'' 0, chunk_result [''b'', ''shared''] ''b'' 1]"
    by (simp add: processAllChunks_def echo_service_def)
  show ?thesis
    using run
      C9_aggregate_follows_chunk_order [of
        "[chunk_result [''a'', ''shared''] ''a'' 0, chunk_result [''b'', ''shared''] ''b'' 1]"
        echo_service "[''a'', ''b'']"]
    by (simp add: chunk_result_def first_occurrences_def)
qed

subsection \<open>Paginated fetch\<close>

text \<open>
  C1. The fetch functions do not filter what they receive against the cutoff and do
  not stop at a page that lies wholly at or before it: for every cutoff that is a valid
  date, the requests issued and the messages returned are those of the fetch without
  cutoff. With cutoff 10 and two pages whose messages were created at 5 and at 3, both
  requests are issued and both messages are returned, by \<open>fetchChatMessages\<close> and by
  \<open>fetchChannelMessages\<close>.
\<close>

theorem C1_cutoff_not_applied_to_pages:
  "fetchChatMessages None (Some (ValidDate 10)) [Batch [old_msg], Batch [older_msg]]
     = (2, Inr [older_msg, old_msg])
   \<and> fetchChannelMessages None (Some (ValidDate 10)) [Batch [old_msg], Batch [older_msg]]
     = (2, Inr [older_msg, old_msg])
   \<and> createdDateTime old_msg \<le> 10 \<and> createdDateTime older_msg \<le> 10
   \<and> (\<forall>cap cutoff remote.
        fetchChatMessages cap (Some (ValidDate cutoff)) remote
          = fetchChatMessages cap None remote
        \<and> fetchChannelMessages cap (Some (ValidDate cutoff)) remote
          = fetchChannelMessages cap None remote)"
  by (simp add: fetchChatMessages_def fetchChannelMessages_def trim_to_max_def
      old_msg_def older_msg_def)

lemma trim_to_positive_max:
  assumes "0 < cap" "int (length acc) > cap"
  shows "trim_to_max (Some cap) (rev acc) = rev (take (nat cap) acc)"
  using assms
  by (simp add: trim_to_max_def slice_from_def Let_def rev_take nat_diff_distrib' max_def)

text \<open>
  C5, as the code has it: for a positive cap, when the loop has accumulated more
  messages than the cap, both fetch functions return exactly cap messages, the last cap
  of the chronological (reversed) sequence, which are the first cap received: the
  oldest are dropped from the front.
\<close>

theorem C5_positive_cap_keeps_most_recent:
  assumes "0 < cap" and "paginate (Some cap) remote [] 0 = (rq, Inr acc)"
    and "int (length acc) > cap" and "since \<noteq> Some InvalidDate"
  shows "fetchChatMessages (Some cap) since remote
           = (rq, Inr (drop (length acc - nat cap) (rev acc)))
     \<and> fetchChannelMessages (Some cap) since remote
           = (rq, Inr (drop (length acc - nat cap) (rev acc)))
     \<and> length (drop (length acc - nat cap) (rev acc)) = nat cap
     \<and> drop (length acc - nat cap) (rev acc) = rev (take (nat cap) acc)"
  using assms trim_to_positive_max [of cap acc]
  by (auto simp: fetchChatMessages_def fetchChannelMessages_def rev_take)

theorem C5_positive_cap_keeps_most_recent_witness:
  "fetchChatMessages (Some 1) None [Batch [old_msg, older_msg], Batch []] = (1, Inr [old_msg])
   \<and> fetchChannelMessages (Some 1) None [Batch [old_msg, older_msg], Batch []]
       = (1, Inr [old_msg])"
proof -
  have p: "paginate (Some 1) [Batch [old_msg, older_msg], Batch []] [] 0
      = (1, Inr [old_msg, older_msg])"
    by simp
  show ?thesis
    using C5_positive_cap_keeps_most_recent [OF _ p, of None] by simp
qed

text \<open>
  The cap 0 is not null, yet it is falsy in \<open>maxMessages && ...\<close>: nothing is trimmed,
  and two accumulated messages are returned where the cap asks for none.
\<close>

theorem C5_zero_cap_counterexample:
  "fetchChatMessages (Some 0) None [Batch [old_msg, older_msg]] = (1, Inr [older_msg, old_msg])
   \<and> int (length [old_msg, older_msg]) > 0
   \<and> length [older_msg, old_msg] \<noteq> nat 0"
  by (simp add: fetchChatMessages_def trim_to_max_def)


subsection \<open>Joined texts\<close>

lemma join_append:
  "xs \<noteq> [] \<Longrightarrow> ys \<noteq> [] \<Longrightarrow> join sep (xs @ ys) = join sep xs @ sep @ join sep ys"
proof (induction sep xs rule: join.induct)
  case (1 sep)
  then show ?case by simp
next
  case (2 sep x)
  then show ?case by (cases ys) simp_all
next
  case (3 sep x y zs)
  then show ?case by simp
qed

lemma join_concat:
  "\<forall>g \<in> set gs. g \<noteq> [] \<Longrightarrow> join sep (concat gs) = join sep (map (join sep) gs)"
proof (induction gs)
  case Nil
  then show ?case by simp
next
  case (Cons g gs)
  show ?case
  proof (cases gs)
    case Nil
    then show ?thesis by simp
  next
    case (Cons h hs)
    with Cons.prems have ne: "g \<noteq> []" "concat gs \<noteq> []" by auto
    have "join sep (concat (g # gs)) = join sep g @ sep @ join sep (concat gs)"
      using ne by (simp add: join_append)
    also have "\<dots> = join sep g @ sep @ join sep (map (join sep) gs)"
      using Cons.IH Cons.prems by simp
    finally show ?thesis using Cons by simp
  qed
qed

lemma concat_with_separator: "concat (with_separator sep xs) = join sep xs"
  by (induction sep xs rule: with_separator.induct) simp_all

lemma date_sections_concat:
  "concat (date_section_texts dstr fmt msgs) = generateGroupedByDate dstr fmt msgs"
proof -
  let ?g = "group_messages dstr msgs"
  let ?sec = "\<lambda>date. Heading date # map Block (the (grouped ?g date)) @ [Blank]"
  have "concat (date_section_texts dstr fmt msgs)
      = join [CHR 0x0A] (map (\<lambda>date. join [CHR 0x0A] (map (render_part fmt) (?sec date)))
           (sortedDates ?g))"
    by (simp add: date_section_texts_def Let_def concat_with_separator)
  also have "\<dots> = join [CHR 0x0A] (map (join [CHR 0x0A])
        (map (\<lambda>date. map (render_part fmt) (?sec date)) (sortedDates ?g)))"
    by (simp add: comp_def)
  also have "\<dots> = join [CHR 0x0A]
        (concat (map (\<lambda>date. map (render_part fmt) (?sec date)) (sortedDates ?g)))"
    by (rule join_concat [symmetric]) simp
  also have "\<dots> = generateGroupedByDate dstr fmt msgs"
    by (simp add: generateGroupedByDate_def grouped_parts_def Let_def map_concat comp_def)
  finally show ?thesis .
qed


subsection \<open>Chunk splitter\<close>

lemma matches_from_bounds:
  "sorted_wrt (<) (matches_from content i)
     \<and> (\<forall>m \<in> set (matches_from content i). i \<le> m \<and> m < length content)"
proof (induction content i rule: matches_from.induct)
  case (1 content lastIndex)
  show ?case
  proof (cases "re_exec dateSectionRegex content lastIndex")
    case None
    then show ?thesis by (simp add: matches_from.simps [of content lastIndex])
  next
    case (Some m)
    from re_exec_SomeD [OF Some]
    have i: "lastIndex \<le> fst m" and l: "fst m \<le> length content"
      and r: "rmatch dateSectionRegex content (fst m) = Some (snd m)" by auto
    from date_match_progress [OF r l]
    have lt: "fst m < match_end m" and le: "match_end m \<le> length content"
      unfolding match_end_def by blast+
    have eq: "matches_from content lastIndex = fst m # matches_from content (match_end m)"
      using Some by (simp add: matches_from.simps [of content lastIndex])
    from "1.IH" [OF Some] i lt le show ?thesis
      unfolding eq by fastforce
  qed
qed

lemma substring_slice:
  "a \<le> b \<Longrightarrow> b \<le> length s \<Longrightarrow> substring s a b = take (b - a) (drop a s)"
  by (simp add: substring_def Let_def min_def max_def)

lemma take_drop_append_drop:
  "a \<le> b \<Longrightarrow> take (b - a) (drop a s) @ drop b s = drop a s"
proof -
  assume "a \<le> b"
  then have "drop b s = drop (b - a) (drop a s)" by simp
  then show ?thesis by (simp only: append_take_drop_id)
qed

lemma extract_sections_concat:
  "sorted_wrt (<) ms \<Longrightarrow> \<forall>m \<in> set ms. m < length content \<Longrightarrow> ms \<noteq> [] \<Longrightarrow>
     concat (extract_sections content ms) = drop (hd ms) content
     \<and> (\<forall>sec \<in> set (extract_sections content ms). sec \<noteq> [])
     \<and> extract_sections content ms \<noteq> []"
proof (induction content ms rule: extract_sections.induct)
  case (1 content)
  then show ?case by simp
next
  case (2 content start)
  then show ?case by (simp add: substring_slice)
next
  case (3 content start nxt rest)
  then have lt: "start < nxt" and le: "nxt < length content" by auto
  from 3 have IH: "concat (extract_sections content (nxt # rest)) = drop nxt content"
      "\<forall>sec \<in> set (extract_sections content (nxt # rest)). sec \<noteq> []"
    by auto
  have sub: "substring content start nxt = take (nxt - start) (drop start content)"
    using lt le by (simp add: substring_slice)
  have ne: "substring content start nxt \<noteq> []"
    using lt le by (simp add: sub)
  have "substring content start nxt @ drop nxt content = drop start content"
    unfolding sub using lt by (intro take_drop_append_drop) simp
  with IH ne show ?case by simp
qed

lemma combine_groups:
  assumes "\<forall>sec \<in> set secs. sec \<noteq> []" and "\<forall>sec \<in> set g0. sec \<noteq> []"
    and "length g0 \<ge> 2 \<longrightarrow> int (length (concat g0)) \<le> maxSize"
  shows "\<exists>groups. combine maxSize secs chunks (concat g0) = chunks @ map concat groups
     \<and> concat groups = g0 @ secs
     \<and> (\<forall>g \<in> set groups. g \<noteq> []
           \<and> (int (length (concat g)) \<le> maxSize \<or> length g = 1))"
  using assms
proof (induction secs arbitrary: chunks g0)
  case Nil
  show ?case
  proof (cases "g0 = []")
    case True
    then show ?thesis by simp
  next
    case False
    then obtain x xs where g0: "g0 = x # xs" by (cases g0) auto
    with Nil.prems(2) have "concat g0 \<noteq> []" by auto
    moreover have "int (length (concat g0)) \<le> maxSize \<or> length g0 = 1"
      using Nil.prems(3) g0 by (cases xs) auto
    ultimately show ?thesis
      using False by (intro exI [of _ "[g0]"]) simp
  qed
next
  case (Cons sec rest)
  have secne: "sec \<noteq> []" and restne: "\<forall>s \<in> set rest. s \<noteq> []"
    using Cons.prems(1) by auto
  show ?case
  proof (cases "int (length (concat g0)) + int (length sec) > maxSize \<and> length (concat g0) > 0")
    case True
    then have g0ne: "g0 \<noteq> []" by auto
    have small: "int (length (concat g0)) \<le> maxSize \<or> length g0 = 1"
    proof (cases g0)
      case Nil
      with g0ne show ?thesis by simp
    next
      case (Cons x xs)
      then show ?thesis using Cons.prems(3) by (cases xs) auto
    qed
    have "\<exists>groups. combine maxSize rest (chunks @ [concat g0]) (concat [sec])
         = (chunks @ [concat g0]) @ map concat groups
       \<and> concat groups = [sec] @ rest
       \<and> (\<forall>g \<in> set groups. g \<noteq> [] \<and> (int (length (concat g)) \<le> maxSize \<or> length g = 1))"
      by (rule Cons.IH) (use restne secne in auto)
    then obtain groups where
      c: "combine maxSize rest (chunks @ [concat g0]) sec = (chunks @ [concat g0]) @ map concat groups"
      and g: "concat groups = [sec] @ rest"
      and a: "\<forall>g \<in> set groups. g \<noteq> [] \<and> (int (length (concat g)) \<le> maxSize \<or> length g = 1)"
      by auto
    have step: "combine maxSize (sec # rest) chunks (concat g0)
        = combine maxSize rest (chunks @ [concat g0]) sec"
      using True by auto
    show ?thesis
      unfolding step using c g a g0ne small
      by (intro exI [of _ "g0 # groups"]) simp
  next
    case False
    have inv: "length (g0 @ [sec]) \<ge> 2 \<longrightarrow> int (length (concat (g0 @ [sec]))) \<le> maxSize"
    proof
      assume "length (g0 @ [sec]) \<ge> 2"
      then obtain x xs where g0: "g0 = x # xs" by (cases g0) auto
      with Cons.prems(2) have pos: "length (concat g0) > 0" by auto
      from False pos have "\<not> maxSize < int (length (concat g0)) + int (length sec)"
        by blast
      then show "int (length (concat (g0 @ [sec]))) \<le> maxSize" by simp
    qed
    have "\<exists>groups. combine maxSize rest chunks (concat (g0 @ [sec]))
         = chunks @ map concat groups
       \<and> concat groups = (g0 @ [sec]) @ rest
       \<and> (\<forall>g \<in> set groups. g \<noteq> [] \<and> (int (length (concat g)) \<le> maxSize \<or> length g = 1))"
      by (rule Cons.IH) (use restne secne Cons.prems(2) inv in auto)
    moreover have "combine maxSize (sec # rest) chunks (concat g0)
        = combine maxSize rest chunks (concat (g0 @ [sec]))"
      using False by auto
    ultimately show ?thesis by simp
  qed
qed

lemma sections_of_facts:
  assumes "matches_from content 0 \<noteq> []"
  shows "concat (sections_of content) = drop (hd (matches_from content 0)) content"
    and "\<forall>sec \<in> set (sections_of content). sec \<noteq> []"
    and "sections_of content \<noteq> []"
  using extract_sections_concat [of "matches_from content 0" content]
    matches_from_bounds [of content 0] assms
  by (auto simp: sections_of_def)

lemma split_groups:
  assumes "matches_from content 0 \<noteq> []"
  shows "\<exists>groups. splitIntoChunks content maxSize = map concat groups
     \<and> concat groups = sections_of content
     \<and> (\<forall>g \<in> set groups. g \<noteq> []
           \<and> (int (length (concat g)) \<le> maxSize \<or> length g = 1))"
proof -
  from combine_groups [of "sections_of content" "[]" maxSize "[]"] sections_of_facts(2) [OF assms]
  obtain groups where c: "combine maxSize (sections_of content) [] [] = map concat groups"
    and g: "concat groups = sections_of content"
    and a: "\<forall>g \<in> set groups. g \<noteq> [] \<and> (int (length (concat g)) \<le> maxSize \<or> length g = 1)"
    by auto
  from g sections_of_facts(3) [OF assms] have "groups \<noteq> []" by auto
  with c g a show ?thesis
    by (intro exI [of _ groups]) (simp add: splitIntoChunks_def)
qed

lemma split_no_marker:
  assumes "matches_from content 0 = []"
  shows "splitIntoChunks content maxSize = [content]"
  using assms by (simp add: splitIntoChunks_def sections_of_def)

lemma matches_from_hd:
  "re_exec dateSectionRegex content 0 = Some m \<Longrightarrow>
     matches_from content 0 \<noteq> [] \<and> hd (matches_from content 0) = fst m"
  "re_exec dateSectionRegex content 0 = None \<Longrightarrow> matches_from content 0 = []"
  by (simp_all add: matches_from.simps [of content 0])


lemma section_starts_nonempty: "secs \<noteq> [] \<Longrightarrow> section_starts p secs \<noteq> []"
  by (cases secs) simp_all

lemma extract_given_sections:
  "extract_sections (pre @ concat secs) (section_starts (length pre) secs) = secs"
proof (induction secs arbitrary: pre)
  case Nil
  then show ?case by simp
next
  case (Cons sec rest)
  show ?case
  proof (cases rest)
    case Nil
    then show ?thesis by (simp add: substring_def)
  next
    case (Cons t ts)
    have "extract_sections ((pre @ sec) @ concat rest)
        (section_starts (length (pre @ sec)) rest) = rest"
      by (rule Cons.IH)
    then have IH: "extract_sections (pre @ sec @ concat rest)
        (section_starts (length pre + length sec) rest) = rest"
      by simp
    have sub: "substring (pre @ sec @ concat rest) (length pre) (length pre + length sec) = sec"
      by (simp add: substring_def)
    show ?thesis
      using IH sub unfolding Cons by simp
  qed
qed

lemma given_sections:
  assumes "content = preamble @ concat dateSections"
    and "matches_from content 0 = section_starts (length preamble) dateSections"
  shows "sections_of content = dateSections"
  using assms extract_given_sections [of preamble dateSections]
  by (simp add: sections_of_def)

text \<open>
  C6, as the code has it. Take a document that is a preamble followed by date sections,
  at least one, in which the lines the splitter takes for date markers are exactly the
  first lines of those sections. Then the chunks are the concatenations of successive
  groups of whole date sections, in order: no date section is divided or truncated, and
  every chunk is within the budget unless it is a single date section that alone exceeds
  it. For a document with no date marker the splitter returns the whole document as one
  chunk, whatever its length.
\<close>

theorem C6_chunks_are_groups_of_whole_date_sections:
  "(content = preamble @ concat dateSections \<and> dateSections \<noteq> []
      \<and> matches_from content 0 = section_starts (length preamble) dateSections \<longrightarrow>
      (\<exists>groups. splitIntoChunks content maxSize = map concat groups
         \<and> concat groups = dateSections
         \<and> (\<forall>g \<in> set groups. g \<noteq> []
              \<and> (int (length (concat g)) \<le> maxSize
                  \<or> (\<exists>sec. g = [sec] \<and> int (length sec) > maxSize)))))
   \<and> (matches_from content 0 = [] \<longrightarrow> splitIntoChunks content maxSize = [content])"
proof (intro conjI impI)
  assume a: "content = preamble @ concat dateSections \<and> dateSections \<noteq> []
      \<and> matches_from content 0 = section_starts (length preamble) dateSections"
  then have m: "matches_from content 0 = section_starts (length preamble) dateSections"
    and dne: "dateSections \<noteq> []" and co: "content = preamble @ concat dateSections"
    by blast+
  have ne: "matches_from content 0 \<noteq> []"
    unfolding m using dne by (rule section_starts_nonempty)
  have secs: "sections_of content = dateSections" using co m by (rule given_sections)
  from split_groups [OF ne, of maxSize] obtain groups where
    c: "splitIntoChunks content maxSize = map concat groups"
    and g: "concat groups = sections_of content"
    and b: "\<forall>g \<in> set groups. g \<noteq> [] \<and> (int (length (concat g)) \<le> maxSize \<or> length g = 1)"
    by auto
  have "\<forall>g \<in> set groups. g \<noteq> []
       \<and> (int (length (concat g)) \<le> maxSize \<or> (\<exists>sec. g = [sec] \<and> int (length sec) > maxSize))"
  proof
    fix g assume "g \<in> set groups"
    with b have gne: "g \<noteq> []" and d: "int (length (concat g)) \<le> maxSize \<or> length g = 1" by auto
    show "g \<noteq> [] \<and> (int (length (concat g)) \<le> maxSize
        \<or> (\<exists>sec. g = [sec] \<and> int (length sec) > maxSize))"
    proof (cases "int (length (concat g)) \<le> maxSize")
      case True
      with gne show ?thesis by simp
    next
      case False
      with d have "length g = 1" by simp
      then obtain sec where "g = [sec]" by (cases g) auto
      with False gne show ?thesis by simp
    qed
  qed
  with c g secs show "\<exists>groups. splitIntoChunks content maxSize = map concat groups
         \<and> concat groups = dateSections
         \<and> (\<forall>g \<in> set groups. g \<noteq> []
              \<and> (int (length (concat g)) \<le> maxSize
                  \<or> (\<exists>sec. g = [sec] \<and> int (length sec) > maxSize)))"
    by auto
next
  assume "matches_from content 0 = []"
  then show "splitIntoChunks content maxSize = [content]" by (rule split_no_marker)
qed

theorem C6_chunks_are_groups_of_whole_date_sections_witness:
  "dated_export = ''# Export'' @ [CHR 0x0A, CHR 0x0A]
       @ concat (date_section_texts example_day example_fmt [msg_at 50, msg_at 150])
   \<and> date_section_texts example_day example_fmt [msg_at 50, msg_at 150]
       = [''## 9/30/2025'' @ [CHR 0x0A, CHR 0x0A] @ ''**User**'' @ [CHR 0x0A] @ ''hi''
            @ [CHR 0x0A, CHR 0x0A, CHR 0x0A],
          ''## 10/1/2025'' @ [CHR 0x0A, CHR 0x0A] @ ''**User**'' @ [CHR 0x0A] @ ''hi''
            @ [CHR 0x0A, CHR 0x0A]]
   \<and> matches_from dated_export 0 = [10, 38]
   \<and> splitIntoChunks dated_export 30
       = date_section_texts example_day example_fmt [msg_at 50, msg_at 150]
   \<and> splitIntoChunks dated_export 100
       = [concat (date_section_texts example_day example_fmt [msg_at 50, msg_at 150])]
   \<and> (\<exists>groups. splitIntoChunks dated_export 30 = map concat groups
         \<and> concat groups = date_section_texts example_day example_fmt [msg_at 50, msg_at 150]
         \<and> (\<forall>g \<in> set groups. g \<noteq> []
              \<and> (int (length (concat g)) \<le> 30
                  \<or> (\<exists>sec. g = [sec] \<and> int (length sec) > 30))))"
proof -
  let ?secs = "date_section_texts example_day example_fmt [msg_at 50, msg_at 150]"
  have d: "dated_export = ''# Export'' @ [CHR 0x0A, CHR 0x0A] @ concat ?secs"
    by (simp only: dated_export_def date_sections_concat)
  have t: "?secs
       = [''## 9/30/2025'' @ [CHR 0x0A, CHR 0x0A] @ ''**User**'' @ [CHR 0x0A] @ ''hi''
            @ [CHR 0x0A, CHR 0x0A, CHR 0x0A],
          ''## 10/1/2025'' @ [CHR 0x0A, CHR 0x0A] @ ''**User**'' @ [CHR 0x0A] @ ''hi''
            @ [CHR 0x0A, CHR 0x0A]]"
    by code_simp
  have m: "matches_from dated_export 0 = [10, 38]" by code_simp
  have s: "section_starts (length (''# Export'' @ [CHR 0x0A, CHR 0x0A])) ?secs = [10, 38]"
    by code_simp
  have c: "splitIntoChunks dated_export 30 = ?secs" by code_simp
  have c': "splitIntoChunks dated_export 100 = [concat ?secs]" by code_simp
  have ne: "?secs \<noteq> []" by (simp add: t)
  from C6_chunks_are_groups_of_whole_date_sections [of dated_export "''# Export'' @ [CHR 0x0A, CHR 0x0A]" ?secs 30] d ne m s
  have "\<exists>groups. splitIntoChunks dated_export 30 = map concat groups
         \<and> concat groups = ?secs
         \<and> (\<forall>g \<in> set groups. g \<noteq> []
              \<and> (int (length (concat g)) \<le> 30
                  \<or> (\<exists>sec. g = [sec] \<and> int (length sec) > 30)))"
    by simp
  with d t m c c' show ?thesis by simp
qed

text \<open>
  A document without a date marker that is longer than the budget is returned whole:
  one chunk over the budget that is not a date section. And a date section written by
  \<open>generateGroupedByDate\<close> that holds a message with the line \<open>## 3/4/2025\<close> is
  divided at that line: the one date section of the document is spread over two chunks.
\<close>

theorem C6_no_marker_and_divided_section_counterexample:
  "splitIntoChunks ''abc'' 2 = [''abc''] \<and> matches_from ''abc'' 0 = []
   \<and> int (length ''abc'') > 2
   \<and> date_section_texts example_day example_fmt [heading_msg]
       = [generateGroupedByDate example_day example_fmt [heading_msg]]
   \<and> splitIntoChunks (generateGroupedByDate example_day example_fmt [heading_msg]) 20
       = [''## 9/30/2025'' @ [CHR 0x0A, CHR 0x0A] @ ''**User**'' @ [CHR 0x0A],
          ''## 3/4/2025'' @ [CHR 0x0A, CHR 0x0A]]"
  by code_simp

text \<open>
  C10. When the document has a date marker, the chunks put together are the document
  from its first marker on: the text before it (the header) is in no chunk. When it
  has none, the single chunk is the whole document, header included.
\<close>

theorem C10_chunks_start_at_first_marker:
  "(\<forall>m. re_exec dateSectionRegex content 0 = Some m \<longrightarrow>
       concat (splitIntoChunks content maxSize) = drop (fst m) content)
   \<and> (re_exec dateSectionRegex content 0 = None \<longrightarrow>
       splitIntoChunks content maxSize = [content])"
proof (intro conjI allI impI)
  fix m assume m: "re_exec dateSectionRegex content 0 = Some m"
  from matches_from_hd(1) [OF m] have ne: "matches_from content 0 \<noteq> []"
    and hd: "hd (matches_from content 0) = fst m" by auto
  from split_groups [OF ne, of maxSize] obtain groups where
    c: "splitIntoChunks content maxSize = map concat groups"
    and g: "concat groups = sections_of content" by auto
  have "concat (map concat groups) = concat (concat groups)" by (induction groups) auto
  with c g sections_of_facts(1) [OF ne] hd
  show "concat (splitIntoChunks content maxSize) = drop (fst m) content" by simp
next
  assume "re_exec dateSectionRegex content 0 = None"
  from matches_from_hd(2) [OF this] show "splitIntoChunks content maxSize = [content]"
    by (rule split_no_marker)
qed


theorem C10_chunks_start_at_first_marker_witness:
  "re_exec dateSectionRegex two_sections 0 = Some (7, [7, 10, 11, 12, 13, 14, 18, 18])
   \<and> concat (splitIntoChunks two_sections 15) = drop 7 two_sections
   \<and> re_exec dateSectionRegex ''header'' 0 = None
   \<and> splitIntoChunks ''header'' 15 = [''header'']"
proof -
  have m: "re_exec dateSectionRegex two_sections 0 = Some (7, [7, 10, 11, 12, 13, 14, 18, 18])"
    by code_simp
  have n: "re_exec dateSectionRegex ''header'' 0 = None" by code_simp
  show ?thesis
    using m n C10_chunks_start_at_first_marker [of two_sections 15]
      C10_chunks_start_at_first_marker [of "''header''" 15]
    by simp
qed

subsection \<open>Response parser\<close>

text \<open>
  What does hold: whenever \<open>JSON.parse\<close> rejects the extracted text, the parser
  fails, and the failure on a chunk ends the processing loop with that error.
\<close>

lemma rejected_text_fails:
  "JSON_parse (jsonString response) = None \<Longrightarrow>
     parseClaudeResponse JSON_parse response i = Inl FailedToParse"
  by (simp add: parseClaudeResponse_def)

lemma failed_chunk_ends_loop:
  "process chunk i n = Inl err \<Longrightarrow> processLoop process n i (chunk # rest) processed = Inl err"
  by simp

text \<open>
  C8. A reply that is bare JSON with a fenced snippet inside one of its strings is not
  parsed as it stands: the second expression finds the inner fences, and the text
  handed to \<open>JSON.parse\<close> is the snippet \<open>a\<close>. A fenced reply with such a string is
  cut at the first inner fence. In both cases a parser that rejects the extracted text,
  as \<open>JSON.parse\<close> does, makes \<open>parseClaudeResponse\<close> and the chunk's processing fail
  although the reply held valid JSON.
\<close>

theorem C8_inner_fence_breaks_extraction:
  \<open>jsonString bare_reply = ''a''
   \<and> jsonString fenced_reply = ''{"topics":["''
   \<and> (\<forall>JSON_parse :: string \<Rightarrow> 'j option.
        JSON_parse ''a'' = None \<longrightarrow>
          parseClaudeResponse JSON_parse bare_reply i = Inl FailedToParse
          \<and> processChunkWithClaude (\<lambda>chunk. Some bare_reply) JSON_parse chunk i n
              = Inl FailedToParse)\<close>
proof -
  have b: "jsonString bare_reply = ''a''" by code_simp
  have f: \<open>jsonString fenced_reply = ''{"topics":["''\<close> by code_simp
  show ?thesis
    using b f by (simp add: parseClaudeResponse_def processChunkWithClaude_def)
qed

theorem C8_inner_fence_breaks_extraction_witness:
  "parse_only bare_reply bare_reply = Some bare_reply
   \<and> parseClaudeResponse (parse_only bare_reply) bare_reply 0 = Inl FailedToParse"
proof -
  have "parse_only bare_reply ''a'' = None"
    by (simp add: parse_only_def bare_reply_def)
  then show ?thesis
    using C8_inner_fence_breaks_extraction [where 'j = string and i = 0]
    by (simp add: parse_only_def)
qed

subsection \<open>Export file: reading the header and appending\<close>

text \<open>
  C4. With no new message, \<open>appendMessagesToExport\<close> returns 0 and leaves the file
  system as it is: it neither reads nor writes the file.
\<close>

theorem C4_empty_append_is_a_no_op:
  "appendMessagesToExport toLocaleDateString fmt numToString nowISO nowLocal fs outputPath []
       groupByDate
     = (fs, Inr 0)"
  by (simp add: appendMessagesToExport_def)

lemma parse_line_lastRun:
  "re_exec lastRunRegex line 0 = Some m \<Longrightarrow>
     lastRun (parse_line Date line metadata) = Some (Date (trim (piece line m 2)))"
  by (simp add: parse_line_def Let_def split: option.splits)

text \<open>
  C3. A last-run field is never treated as absent: whatever its text, the header
  reader stores the \<open>Date\<close> made from it, the invalid date when the text cannot be
  parsed. The run then counts as incremental with that invalid date as its cutoff, and
  the fetch throws on it before any request is issued: the run ends with exit code 1,
  where a full fetch was to be done.
\<close>

theorem C3_unparseable_last_run_aborts_run:
  "(\<forall>line metadata m. re_exec lastRunRegex line 0 = Some m \<longrightarrow>
       lastRun (parse_line Date line metadata) = Some (Date (trim (piece line m 2))))
   \<and> (\<forall>existingExport. parseExistingExport Date fs outputPath = Some existingExport
         \<and> lastRun existingExport = Some InvalidDate \<longrightarrow>
       detectIncremental Date fs outputPath = (True, Some InvalidDate)
       \<and> fetchStep Date fs outputPath isChannel maxMessages remote = (0, ProcessExit 1))"
proof (intro conjI allI impI)
  fix line metadata m
  assume "re_exec lastRunRegex line 0 = Some m"
  then show "lastRun (parse_line Date line metadata) = Some (Date (trim (piece line m 2)))"
    by (rule parse_line_lastRun)
next
  fix existingExport
  assume a: "parseExistingExport Date fs outputPath = Some existingExport
     \<and> lastRun existingExport = Some InvalidDate"
  then have ex: "exportFileExists fs outputPath"
    by (auto simp: parseExistingExport_def exportFileExists_def split: option.splits)
  with a show d: "detectIncremental Date fs outputPath = (True, Some InvalidDate)"
    by (simp add: detectIncremental_def)
  show "fetchStep Date fs outputPath isChannel maxMessages remote = (0, ProcessExit 1)"
    by (simp add: fetchStep_def d fetchChatMessages_def fetchChannelMessages_def)
qed

theorem C3_unparseable_last_run_aborts_run_witness:
  "map_option lastRun (parseExistingExport example_Date [''chat.md'' \<mapsto> damaged_export] ''chat.md'')
     = Some (Some InvalidDate)
   \<and> fetchStep example_Date [''chat.md'' \<mapsto> damaged_export] ''chat.md'' False None
        [Batch [old_msg]] = (0, ProcessExit 1)"
proof -
  have p: "parseExistingExport example_Date [''chat.md'' \<mapsto> damaged_export] ''chat.md''
     = Some \<lparr>lastRun = Some InvalidDate, lastRunISO = Some ''yesterday'', source = None,
          totalMessages = Exactly 5\<rparr>"
    by code_simp
  show ?thesis
    using p C3_unparseable_last_run_aborts_run [of example_Date
        "[''chat.md'' \<mapsto> damaged_export]" "''chat.md''" False None "[Batch [old_msg]]"]
    by simp
qed


subsection \<open>Grouping by date\<close>

lemma filter_date_key_empty:
  "k \<notin> date_key dstr ` set msgs \<Longrightarrow> filter (\<lambda>m. date_key dstr m = k) msgs = []"
  by (auto simp: filter_empty_conv)

lemma filter_date_key_nonempty:
  "k \<in> date_key dstr ` set msgs \<Longrightarrow> filter (\<lambda>m. date_key dstr m = k) msgs \<noteq> []"
  by (auto simp: filter_empty_conv)

lemma add_to_group_inv:
  assumes "group_inv dstr msgs g"
  shows "group_inv dstr (msgs @ [x]) (add_to_group dstr x g)"
proof (cases "date_key dstr x \<in> date_key dstr ` set msgs")
  case True
  with assms have some: "grouped g (date_key dstr x)
      = Some (filter (\<lambda>m. date_key dstr m = date_key dstr x) msgs)"
    by (simp add: group_inv_def)
  have eq: "add_to_group dstr x g
      = g\<lparr>grouped := (grouped g)(date_key dstr x \<mapsto>
            filter (\<lambda>m. date_key dstr m = date_key dstr x) msgs @ [x])\<rparr>"
    using some by (simp add: add_to_group_def Let_def date_key_def)
  have ne: "\<And>k. k \<in> date_key dstr ` set msgs \<Longrightarrow> filter (\<lambda>m. date_key dstr m = k) msgs \<noteq> []"
    by (rule filter_date_key_nonempty)
  show ?thesis
    unfolding eq using assms True ne
    by (auto simp: group_inv_def)
next
  case False
  with assms have none: "grouped g (date_key dstr x) = None"
    by (simp add: group_inv_def)
  have eq: "add_to_group dstr x g
      = g\<lparr>group_keys := group_keys g @ [date_key dstr x],
           grouped := (grouped g)(date_key dstr x \<mapsto> [x]),
           dateObjects := (dateObjects g)(date_key dstr x \<mapsto> createdDateTime x)\<rparr>"
    using none by (simp add: add_to_group_def Let_def date_key_def)
  have emp: "filter (\<lambda>m. date_key dstr m = date_key dstr x) msgs = []"
    using False by (rule filter_date_key_empty)
  have ne: "\<And>k. k \<in> date_key dstr ` set msgs \<Longrightarrow> filter (\<lambda>m. date_key dstr m = k) msgs \<noteq> []"
    by (rule filter_date_key_nonempty)
  show ?thesis
    unfolding eq using assms False emp ne
    by (auto simp: group_inv_def)
qed

lemma group_messages_inv: "group_inv dstr msgs (group_messages dstr msgs)"
proof (induction msgs rule: rev_induct)
  case Nil
  then show ?case by (simp add: group_messages_def group_inv_def no_groups_def)
next
  case (snoc x xs)
  then show ?case
    using add_to_group_inv [of dstr xs "group_messages dstr xs" x]
    by (simp add: group_messages_def)
qed

lemma sortedDates_facts:
  assumes "group_inv dstr msgs g"
  shows "distinct (sortedDates g)"
    and "set (sortedDates g) = date_key dstr ` set msgs"
    and "sorted (map (\<lambda>d. createdDateTime (hd (filter (\<lambda>m. date_key dstr m = d) msgs)))
            (sortedDates g))"
proof -
  show "distinct (sortedDates g)" using assms by (simp add: sortedDates_def group_inv_def)
  show s: "set (sortedDates g) = date_key dstr ` set msgs"
    using assms by (simp add: sortedDates_def group_inv_def)
  have "sorted (map (\<lambda>date. the (dateObjects g date)) (sortedDates g))"
    unfolding sortedDates_def by (rule sorted_sort_key)
  moreover have "map (\<lambda>date. the (dateObjects g date)) (sortedDates g)
      = map (\<lambda>d. createdDateTime (hd (filter (\<lambda>m. date_key dstr m = d) msgs))) (sortedDates g)"
    using assms s by (intro map_cong refl) (simp add: group_inv_def)
  ultimately show "sorted (map (\<lambda>d. createdDateTime (hd (filter (\<lambda>m. date_key dstr m = d) msgs)))
            (sortedDates g))" by simp
qed

lemma grouped_parts_sections:
  "grouped_parts dstr msgs
     = concat (map (\<lambda>d. Heading d # map Block (filter (\<lambda>m. date_key dstr m = d) msgs) @ [Blank])
         (sortedDates (group_messages dstr msgs)))"
proof -
  let ?g = "group_messages dstr msgs"
  have inv: "group_inv dstr msgs ?g" by (rule group_messages_inv)
  have "map (\<lambda>date. Heading date # map Block (the (grouped ?g date)) @ [Blank]) (sortedDates ?g)
      = map (\<lambda>d. Heading d # map Block (filter (\<lambda>m. date_key dstr m = d) msgs) @ [Blank])
          (sortedDates ?g)"
    using inv sortedDates_facts(2) [OF inv]
    by (intro map_cong refl) (simp add: group_inv_def)
  then show ?thesis by (simp only: grouped_parts_def Let_def)
qed


text \<open>
  The order in which \<open>Object.keys\<close> lists the keys does not matter: the instant kept
  for a date determines the date, so no two keys compare equal, and sorting any
  arrangement of the keys gives the same list.
\<close>

lemma filter_eq_singleton:
  "distinct zs \<Longrightarrow> k \<in> set zs \<Longrightarrow> filter (\<lambda>x. k = x) zs = [k]"
  by (induction zs) (auto simp: filter_empty_conv)

lemma first_instant_determines_date:
  assumes "group_inv dstr msgs g" and "k \<in> set (group_keys g)"
  shows "dstr (the (dateObjects g k)) = k"
proof -
  from assms have k: "k \<in> date_key dstr ` set msgs" by (simp add: group_inv_def)
  then have ne: "filter (\<lambda>m. date_key dstr m = k) msgs \<noteq> []"
    by (rule filter_date_key_nonempty)
  then have "hd (filter (\<lambda>m. date_key dstr m = k) msgs)
      \<in> set (filter (\<lambda>m. date_key dstr m = k) msgs)" by (rule hd_in_set)
  then have "date_key dstr (hd (filter (\<lambda>m. date_key dstr m = k) msgs)) = k" by simp
  moreover have "the (dateObjects g k)
      = createdDateTime (hd (filter (\<lambda>m. date_key dstr m = k) msgs))"
    using assms(1) k by (simp add: group_inv_def)
  ultimately show ?thesis by (simp add: date_key_def)
qed

lemma sortedDates_any_key_order:
  assumes "mset ks = mset (group_keys (group_messages dstr msgs))"
  shows "sort_key (\<lambda>date. the (dateObjects (group_messages dstr msgs) date)) ks
     = sortedDates (group_messages dstr msgs)"
proof (rule properties_for_sort_key)
  let ?g = "group_messages dstr msgs"
  let ?f = "\<lambda>date. the (dateObjects ?g date)"
  have inv: "group_inv dstr msgs ?g" by (rule group_messages_inv)
  have dk: "distinct (group_keys ?g)" using inv by (simp add: group_inv_def)
  have dks: "distinct ks" using assms dk by (metis mset_eq_imp_distinct_iff)
  have sks: "set ks = set (group_keys ?g)" using assms by (rule mset_eq_setD)
  show "mset (sortedDates ?g) = mset ks" by (simp add: sortedDates_def assms)
  show "sorted (map ?f (sortedDates ?g))" unfolding sortedDates_def by (rule sorted_sort_key)
  fix k assume k: "k \<in> set (sortedDates ?g)"
  then have kk: "k \<in> set (group_keys ?g)" by (simp add: sortedDates_def)
  have same: "(?f k = ?f x) = (k = x)" if "x \<in> set (group_keys ?g)" for x
    using first_instant_determines_date [OF inv kk] first_instant_determines_date [OF inv that]
    by metis
  have "filter (\<lambda>x. ?f k = ?f x) (sortedDates ?g) = filter (\<lambda>x. k = x) (sortedDates ?g)"
    by (rule filter_cong) (simp_all add: same sortedDates_def)
  also have "\<dots> = [k]" using k dk by (intro filter_eq_singleton) (simp_all add: sortedDates_def)
  also have "[k] = filter (\<lambda>x. k = x) ks"
    using dks kk sks by (intro filter_eq_singleton [symmetric]) simp_all
  also have "\<dots> = filter (\<lambda>x. ?f k = ?f x) ks"
    by (rule filter_cong) (simp_all add: same sks)
  finally show "filter (\<lambda>x. ?f k = ?f x) (sortedDates ?g) = filter (\<lambda>x. ?f k = ?f x) ks" .
qed

lemma grouped_text:
  "generateGroupedByDate dstr fmt msgs
     = join [CHR 0x0A]
         (concat (map (\<lambda>d. (''## '' @ d @ [CHR 0x0A])
                          # map fmt (filter (\<lambda>m. date_key dstr m = d) msgs) @ [[]])
                    (sortedDates (group_messages dstr msgs))))"
  unfolding generateGroupedByDate_def grouped_parts_sections
  by (simp add: map_concat comp_def)

text \<open>
  C7. The text that \<open>generateGroupedByDate\<close> returns is, joined by line feeds, one
  section for each date that occurs, each date once: the heading line of the date, the
  renderings of the messages of that date in their input order, and an empty part. The
  sections are in the order of the instants of the first message of each date, whatever
  the texts of the dates compare to as strings.
\<close>

theorem C7_sections_ordered_by_first_instant:
  "\<exists>dates. generateGroupedByDate dstr fmt msgs
       = join [CHR 0x0A]
           (concat (map (\<lambda>d. (''## '' @ d @ [CHR 0x0A])
                            # map fmt (filter (\<lambda>m. dstr (createdDateTime m) = d) msgs)
                            @ [[]]) dates))
     \<and> distinct dates
     \<and> set dates = (\<lambda>m. dstr (createdDateTime m)) ` set msgs
     \<and> sorted (map (\<lambda>d. createdDateTime (hd (filter (\<lambda>m. dstr (createdDateTime m) = d) msgs)))
                 dates)"
proof -
  let ?g = "group_messages dstr msgs"
  have inv: "group_inv dstr msgs ?g" by (rule group_messages_inv)
  show ?thesis
    using grouped_text [of dstr fmt msgs] sortedDates_facts [OF inv]
    by (intro exI [of _ "sortedDates ?g"]) (simp add: date_key_def [abs_def])
qed

theorem C7_sections_ordered_by_first_instant_witness:
  "generateGroupedByDate example_day example_fmt [msg_at 150, msg_at 50, msg_at 200]
     = ''## 9/30/2025'' @ [CHR 0x0A, CHR 0x0A]
       @ ''**User**'' @ [CHR 0x0A] @ ''hi'' @ [CHR 0x0A, CHR 0x0A, CHR 0x0A]
       @ ''## 10/1/2025'' @ [CHR 0x0A, CHR 0x0A]
       @ ''**User**'' @ [CHR 0x0A] @ ''hi'' @ [CHR 0x0A, CHR 0x0A]
       @ ''**User**'' @ [CHR 0x0A] @ ''hi'' @ [CHR 0x0A, CHR 0x0A]
   \<and> (\<exists>dates. generateGroupedByDate example_day example_fmt [msg_at 150, msg_at 50, msg_at 200]
       = join [CHR 0x0A]
           (concat (map (\<lambda>d. (''## '' @ d @ [CHR 0x0A])
                            # map example_fmt (filter (\<lambda>m. example_day (createdDateTime m) = d)
                                         [msg_at 150, msg_at 50, msg_at 200])
                            @ [[]]) dates))
     \<and> distinct dates)"
proof -
  have e: "generateGroupedByDate example_day example_fmt [msg_at 150, msg_at 50, msg_at 200]
     = ''## 9/30/2025'' @ [CHR 0x0A, CHR 0x0A]
       @ ''**User**'' @ [CHR 0x0A] @ ''hi'' @ [CHR 0x0A, CHR 0x0A, CHR 0x0A]
       @ ''## 10/1/2025'' @ [CHR 0x0A, CHR 0x0A]
       @ ''**User**'' @ [CHR 0x0A] @ ''hi'' @ [CHR 0x0A, CHR 0x0A]
       @ ''**User**'' @ [CHR 0x0A] @ ''hi'' @ [CHR 0x0A, CHR 0x0A]"
    by code_simp
  show ?thesis
    using e C7_sections_ordered_by_first_instant [of example_day example_fmt "[msg_at 150, msg_at 50, msg_at 200]"]
    by blast
qed


subsection \<open>Appending to an export file\<close>

text \<open>
  From here on a match is unfolded only where a proof asks for it.
\<close>

declare rmatch.simps [simp del]

text \<open>
  Runs of a character class: where a run ends, and how long it is at least.
\<close>

lemma run_holds: "j < run P s q \<Longrightarrow> P (s ! (q + j))"
proof -
  assume j: "j < run P s q"
  then have "takeWhile P (drop q s) ! j \<in> set (takeWhile P (drop q s))"
    by (simp add: run_def)
  then have "P (takeWhile P (drop q s) ! j)" by (blast dest: set_takeWhileD)
  moreover have "takeWhile P (drop q s) ! j = drop q s ! j"
    using j by (simp add: run_def takeWhile_nth)
  moreover have "j < length (drop q s)"
    using j length_takeWhile_le [of P "drop q s"] by (simp add: run_def)
  ultimately show ?thesis by simp
qed

lemma run_stopper: "q + run P s q < length s \<Longrightarrow> \<not> P (s ! (q + run P s q))"
proof -
  assume "q + run P s q < length s"
  then have "length (takeWhile P (drop q s)) < length (drop q s)"
    by (simp add: run_def)
  from nth_length_takeWhile [OF this] show ?thesis
    using \<open>q + run P s q < length s\<close> by (simp add: run_def)
qed

lemma run_stops_at:
  assumes "q \<le> t" "t < length s" "\<not> P (s ! t)"
  shows "q + run P s q \<le> t"
proof (rule ccontr)
  assume "\<not> q + run P s q \<le> t"
  then have "t - q < run P s q" using assms(1) by simp
  from run_holds [OF this] assms(1,3) show False by simp
qed

lemma run_ge:
  assumes "q + k \<le> length s" and "\<And>i. i < k \<Longrightarrow> P (s ! (q + i))"
  shows "k \<le> run P s q"
proof (rule ccontr)
  assume "\<not> k \<le> run P s q"
  then have lt: "run P s q < k" by simp
  then have "q + run P s q < length s" using assms(1) by simp
  from run_stopper [OF this] assms(2) [OF lt] show False by simp
qed

lemma run_pos: "q < length s \<Longrightarrow> P (s ! q) \<Longrightarrow> 0 < run P s q"
  using run_ge [of q 1 s P] by simp

lemma nth_prefix: "take m s = take m s' \<Longrightarrow> j < m \<Longrightarrow> s ! j = s' ! j"
  by (metis nth_take)

lemma take_drop_prefix:
  assumes "take m s = take m s'" and "p + n \<le> m"
  shows "take n (drop p s) = take n (drop p s')"
proof -
  have "take (p + n) s = take (p + n) s'"
  proof -
    have "take (p + n) (take m s) = take (p + n) (take m s')" by (simp only: assms(1))
    then show ?thesis using assms(2) by (simp add: min_def)
  qed
  then have "drop p (take (p + n) s) = drop p (take (p + n) s')" by simp
  then show ?thesis by (simp add: drop_take)
qed

lemma take_within:
  "n \<le> length l \<Longrightarrow> take (length A + n) (A @ l @ rest) = take (length A + n) (A @ l)"
  by simp

text \<open>
  The search from the start of the text finds the first position at which the
  expression matches, and finds nothing exactly when the expression matches nowhere.
\<close>

lemma first_some_exists: "first_some f xs \<noteq> None \<longleftrightarrow> (\<exists>x \<in> set xs. f x \<noteq> None)"
  by (induction xs) (auto split: option.splits)

lemma rev_upt_Suc: "a \<le> n \<Longrightarrow> rev [a..<Suc n] = n # rev [a..<n]"
  by simp

lemma rmatch_Plus_last:
  "rmatch [Plus c] s r = (if run c s r = 0 then None else Some [r + run c s r])"
proof (cases "run c s r")
  case 0
  then show ?thesis by (simp add: run_def rmatch.simps)
next
  case (Suc d)
  have "rmatch [Plus c] s r
      = first_some (\<lambda>k. map_option (Cons (r + k)) (rmatch [] s (r + k))) (rev [1..<Suc (Suc d)])"
    using Suc by (simp only: rmatch.simps run_def)
  also have "rev [1..<Suc (Suc d)] = Suc d # rev [1..<Suc d]"
    by (rule rev_upt_Suc) simp
  finally show ?thesis using Suc by (simp add: rmatch.simps(1))
qed

lemma first_some_upt_Some:
  "first_some f [a..<b] = Some y \<longleftrightarrow>
     (\<exists>p. a \<le> p \<and> p < b \<and> f p = Some y \<and> (\<forall>j. a \<le> j \<and> j < p \<longrightarrow> f j = None))"
proof (induction "b - a" arbitrary: a)
  case 0
  then show ?case by simp
next
  case (Suc n)
  then have lt: "a < b" and n: "n = b - Suc a" by simp_all
  have up: "[a..<b] = a # [Suc a..<b]" using lt by (rule upt_conv_Cons)
  show ?case
  proof (cases "f a")
    case (Some y')
    have "(\<exists>p. a \<le> p \<and> p < b \<and> f p = Some y \<and> (\<forall>j. a \<le> j \<and> j < p \<longrightarrow> f j = None))
        \<longleftrightarrow> y' = y"
    proof
      assume "\<exists>p. a \<le> p \<and> p < b \<and> f p = Some y \<and> (\<forall>j. a \<le> j \<and> j < p \<longrightarrow> f j = None)"
      then obtain p where p: "a \<le> p" "f p = Some y" "\<forall>j. a \<le> j \<and> j < p \<longrightarrow> f j = None"
        by blast
      have "p = a"
      proof (rule ccontr)
        assume "p \<noteq> a"
        with p(1) have "a < p" by simp
        with p(3) have "f a = None" by simp
        with Some show False by simp
      qed
      with p(2) Some show "y' = y" by simp
    next
      assume "y' = y"
      with Some lt show "\<exists>p. a \<le> p \<and> p < b \<and> f p = Some y
          \<and> (\<forall>j. a \<le> j \<and> j < p \<longrightarrow> f j = None)"
        by (intro exI [of _ a]) auto
    qed
    then show ?thesis using Some by (simp add: up)
  next
    case None
    have "(\<exists>p. a \<le> p \<and> p < b \<and> f p = Some y \<and> (\<forall>j. a \<le> j \<and> j < p \<longrightarrow> f j = None))
        \<longleftrightarrow> (\<exists>p. Suc a \<le> p \<and> p < b \<and> f p = Some y
              \<and> (\<forall>j. Suc a \<le> j \<and> j < p \<longrightarrow> f j = None))"
    proof
      assume "\<exists>p. a \<le> p \<and> p < b \<and> f p = Some y \<and> (\<forall>j. a \<le> j \<and> j < p \<longrightarrow> f j = None)"
      then obtain p where p: "a \<le> p" "p < b" "f p = Some y"
          "\<forall>j. a \<le> j \<and> j < p \<longrightarrow> f j = None"
        by blast
      from p(3) None have "p \<noteq> a" by auto
      with p show "\<exists>p. Suc a \<le> p \<and> p < b \<and> f p = Some y
              \<and> (\<forall>j. Suc a \<le> j \<and> j < p \<longrightarrow> f j = None)"
        by (intro exI [of _ p]) auto
    next
      assume "\<exists>p. Suc a \<le> p \<and> p < b \<and> f p = Some y
              \<and> (\<forall>j. Suc a \<le> j \<and> j < p \<longrightarrow> f j = None)"
      then obtain p where p: "Suc a \<le> p" "p < b" "f p = Some y"
          "\<forall>j. Suc a \<le> j \<and> j < p \<longrightarrow> f j = None"
        by blast
      have "f j = None" if "a \<le> j \<and> j < p" for j
        using that p(4) None by (cases "j = a") auto
      with p show "\<exists>p. a \<le> p \<and> p < b \<and> f p = Some y
          \<and> (\<forall>j. a \<le> j \<and> j < p \<longrightarrow> f j = None)"
        by (intro exI [of _ p]) auto
    qed
    then show ?thesis using None Suc.hyps(1) [OF n] by (simp add: up)
  qed
qed

lemma re_exec_0_iff:
  "re_exec re s 0 = Some m \<longleftrightarrow>
     fst m \<le> length s \<and> rmatch re s (fst m) = Some (snd m)
     \<and> (\<forall>j < fst m. rmatch re s j = None)"
proof -
  have "re_exec re s 0 = Some m \<longleftrightarrow>
      (\<exists>p. 0 \<le> p \<and> p < Suc (length s) \<and> map_option (Pair p) (rmatch re s p) = Some m
         \<and> (\<forall>j. 0 \<le> j \<and> j < p \<longrightarrow> map_option (Pair j) (rmatch re s j) = None))"
    unfolding re_exec_def by (rule first_some_upt_Some)
  also have "\<dots> \<longleftrightarrow> fst m \<le> length s \<and> rmatch re s (fst m) = Some (snd m)
     \<and> (\<forall>j < fst m. rmatch re s j = None)"
    by (cases m) auto
  finally show ?thesis .
qed

lemma re_exec_0_None_iff:
  "re_exec re s 0 = None \<longleftrightarrow> (\<forall>j \<le> length s. rmatch re s j = None)"
proof
  assume n: "re_exec re s 0 = None"
  show "\<forall>j \<le> length s. rmatch re s j = None"
  proof (intro allI impI, rule ccontr)
    fix j assume j: "j \<le> length s" and "rmatch re s j \<noteq> None"
    then obtain bs where bs: "rmatch re s j = Some bs" by auto
    have "\<exists>p \<le> j. \<exists>y. rmatch re s p = Some y \<and> (\<forall>i < p. rmatch re s i = None)"
      using bs
    proof (induction j arbitrary: bs rule: less_induct)
      case (less j)
      show ?case
      proof (cases "\<forall>i < j. rmatch re s i = None")
        case True
        with less.prems show ?thesis by blast
      next
        case False
        then obtain i y where "i < j" "rmatch re s i = Some y" by auto
        from less.IH [OF this] \<open>i < j\<close> show ?thesis
          by (meson le_trans less_imp_le_nat)
      qed
    qed
    then obtain p y where p: "p \<le> j" "rmatch re s p = Some y" "\<forall>i < p. rmatch re s i = None"
      by blast
    then have "re_exec re s 0 = Some (p, y)" using j by (simp add: re_exec_0_iff)
    with n show False by simp
  qed
next
  assume a: "\<forall>j \<le> length s. rmatch re s j = None"
  show "re_exec re s 0 = None"
  proof (cases "re_exec re s 0")
    case None
    then show ?thesis .
  next
    case (Some m)
    then have "fst m \<le> length s" "rmatch re s (fst m) = Some (snd m)"
      by (simp_all add: re_exec_0_iff)
    with a show ?thesis by simp
  qed
qed

lemma re_exec_first:
  assumes "rmatch re s p = Some bs" and "p \<le> length s" and "\<forall>j < p. rmatch re s j = None"
  shows "re_exec re s 0 = Some (p, bs)"
  using assms by (simp add: re_exec_0_iff)

text \<open>
  A labelled field: a literal label followed by \<open>c1+\<close> and \<open>c2+\<close>. When it has a
  match at a position, what the match is when the runs are taken whole, and where it is
  found in a text built around it.
\<close>

lemma field_exists:
  "rmatch [Lit l, Plus c1, Plus c2] s j \<noteq> None \<longleftrightarrow>
     take (length l) (drop j s) = l
     \<and> (\<exists>k. 1 \<le> k \<and> k \<le> run c1 s (j + length l) \<and> 0 < run c2 s (j + length l + k))"
proof -
  let ?q = "j + length l"
  let ?F = "\<lambda>k. map_option (Cons (?q + k)) (rmatch [Plus c2] s (?q + k))"
  have F: "?F k \<noteq> None \<longleftrightarrow> 0 < run c2 s (?q + k)" for k
    by (simp add: rmatch_Plus_last)
  have "rmatch [Plus c1, Plus c2] s ?q \<noteq> None
      \<longleftrightarrow> (\<exists>k \<in> set (rev [1..<Suc (run c1 s ?q)]). ?F k \<noteq> None)"
    by (simp only: rmatch.simps(3) run_def first_some_exists)
  also have "\<dots> \<longleftrightarrow> (\<exists>k. 1 \<le> k \<and> k \<le> run c1 s ?q \<and> 0 < run c2 s (?q + k))"
    unfolding F by auto
  finally show ?thesis
    by (simp add: rmatch.simps(2))
qed

lemma rmatch_field_greedy:
  assumes lit: "take (length l) (drop p s) = l"
    and w: "0 < run c1 s (p + length l)"
    and d: "0 < run c2 s (p + length l + run c1 s (p + length l))"
  shows "rmatch [Lit l, Plus c1, Plus c2] s p
     = Some [p + length l, p + length l + run c1 s (p + length l),
             p + length l + run c1 s (p + length l)
               + run c2 s (p + length l + run c1 s (p + length l))]"
proof -
  let ?q = "p + length l"
  let ?F = "\<lambda>k. map_option (Cons (?q + k)) (rmatch [Plus c2] s (?q + k))"
  from w obtain w' where w': "run c1 s ?q = Suc w'" by (cases "run c1 s ?q") auto
  have "rmatch [Plus c1, Plus c2] s ?q = first_some ?F (rev [1..<Suc (Suc w')])"
    using w' by (simp only: rmatch.simps run_def)
  also have "rev [1..<Suc (Suc w')] = Suc w' # rev [1..<Suc w']"
    by (rule rev_upt_Suc) simp
  also have "first_some ?F (Suc w' # rev [1..<Suc w'])
      = Some [?q + Suc w', ?q + Suc w' + run c2 s (?q + Suc w')]"
    using d unfolding w' by (simp add: rmatch_Plus_last)
  finally show ?thesis using lit by (simp add: rmatch.simps(2) w')
qed

lemma value_in_context:
  assumes w: "w \<noteq> []" "\<forall>x \<in> set w. c1 x"
    and v: "v \<noteq> []" "\<not> c1 (hd v)" "\<forall>x \<in> set v. c2 x"
    and R: "R = [] \<or> \<not> c2 (hd R)"
  shows "rmatch [Lit l, Plus c1, Plus c2] (A @ l @ w @ v @ R) (length A)
     = Some [length A + length l, length A + length l + length w,
             length A + length l + length w + length v]"
proof -
  let ?s = "A @ l @ w @ v @ R"
  have "takeWhile c1 (v @ R) = []"
    using v(1,2) by (cases v) simp_all
  then have "takeWhile c1 (w @ v @ R) = w" using w(2) by simp
  then have r1: "run c1 ?s (length A + length l) = length w"
    by (simp add: run_def)
  have "takeWhile c2 R = []" using R by (auto simp: takeWhile_eq_Nil_iff)
  then have "takeWhile c2 (v @ R) = v" using v(3) by simp
  then have r2: "run c2 ?s (length A + length l + length w) = length v"
    by (simp add: run_def)
  have lit: "take (length l) (drop (length A) ?s) = l" by simp
  from rmatch_field_greedy [of l "length A" ?s c1 c2, OF lit]
  show ?thesis using r1 r2 w(1) v(1) by simp
qed

lemma labelled_field:
  assumes w: "w \<noteq> []" "\<forall>x \<in> set w. c1 x"
    and v: "v \<noteq> []" "\<not> c1 (hd v)" "\<forall>x \<in> set v. c2 x"
    and R: "R = [] \<or> \<not> c2 (hd R)"
    and none: "\<forall>j < length A. rmatch [Lit l, Plus c1, Plus c2] (A @ l @ w @ v @ R) j = None"
  shows "re_exec [Lit l, Plus c1, Plus c2] (A @ l @ w @ v @ R) 0
       = Some (length A, [length A + length l, length A + length l + length w,
             length A + length l + length w + length v])"
    and "re_replace [Lit l, Plus c1, Plus c2] (A @ l @ w @ v @ R) repl = A @ repl @ R"
    and "piece (A @ l @ w @ v @ R)
           (length A, [length A + length l, length A + length l + length w,
             length A + length l + length w + length v]) 2 = v"
proof -
  let ?s = "A @ l @ w @ v @ R"
  let ?bs = "[length A + length l, length A + length l + length w,
             length A + length l + length w + length v]"
  have m: "rmatch [Lit l, Plus c1, Plus c2] ?s (length A) = Some ?bs"
    using w v R by (rule value_in_context)
  show e: "re_exec [Lit l, Plus c1, Plus c2] ?s 0 = Some (length A, ?bs)"
    using m _ none by (rule re_exec_first) simp
  show "re_replace [Lit l, Plus c1, Plus c2] ?s repl = A @ repl @ R"
    by (simp add: re_replace_def e match_end_def)
  show "piece ?s (length A, ?bs) 2 = v"
    by (simp add: piece_def Let_def numeral_2_eq_2)
qed

text \<open>
  Whether such a field matches at a position depends on the text up to the first
  character after the label that is not of \<open>c1\<close>. So a match carries over to every text
  that agrees up to such a character, and there is none where the label would have to
  cover a character it does not hold. From this: in a text made of a part \<open>X\<close>, digits and
  a part \<open>Y\<close> before the label, the field matches nowhere before the label when it matches
  nowhere in \<open>X\<close> followed by a digit and nowhere in \<open>Y\<close> followed by the label.
\<close>

lemma field_exists_transfer:
  assumes ex: "rmatch [Lit l, Plus c1, Plus c2] s j \<noteq> None"
    and agree: "take t s = take t s'"
    and t: "t < length s" and t': "t < length s'"
    and stop: "\<not> c1 (s ! t)"
    and compat: "c2 (s ! t) \<longrightarrow> c2 (s' ! t)"
    and j: "j + length l \<le> t"
  shows "rmatch [Lit l, Plus c1, Plus c2] s' j \<noteq> None"
proof -
  let ?q = "j + length l"
  from ex obtain k where lit: "take (length l) (drop j s) = l"
    and k1: "1 \<le> k" and kw: "k \<le> run c1 s ?q" and d: "0 < run c2 s (?q + k)"
    unfolding field_exists by blast
  have "?q + run c1 s ?q \<le> t" using j t stop by (rule run_stops_at)
  with kw have qk: "?q + k \<le> t" by simp
  have lit': "take (length l) (drop j s') = l"
    using take_drop_prefix [OF agree, of j "length l"] j lit by simp
  have kw': "k \<le> run c1 s' ?q"
  proof (rule run_ge)
    show "?q + k \<le> length s'" using qk t' by simp
    fix i assume i: "i < k"
    then have "?q + i < t" using qk by simp
    with agree have "s ! (?q + i) = s' ! (?q + i)" by (rule nth_prefix)
    moreover have "c1 (s ! (?q + i))"
    proof (rule run_holds)
      show "i < run c1 s ?q" using i kw by simp
    qed
    ultimately show "c1 (s' ! (?q + i))" by simp
  qed
  have c2s: "c2 (s ! (?q + k))" using run_holds [OF d] by simp
  have "c2 (s' ! (?q + k))"
  proof (cases "?q + k = t")
    case True
    with c2s compat show ?thesis by simp
  next
    case False
    with qk have "?q + k < t" by simp
    with agree have "s ! (?q + k) = s' ! (?q + k)" by (intro nth_prefix)
    with c2s show ?thesis by simp
  qed
  then have d': "0 < run c2 s' (?q + k)" using qk t' by (intro run_pos) simp_all
  show ?thesis unfolding field_exists using lit' k1 kw' d' by blast
qed

lemma literal_mismatch:
  assumes "j \<le> t" and "t < j + length l" and "t < length s" and "s ! t \<notin> set l"
  shows "rmatch (Lit l # as) s j = None"
proof (cases "take (length l) (drop j s) = l")
  case False
  then show ?thesis by (simp add: rmatch.simps(2))
next
  case True
  have "l ! (t - j) = take (length l) (drop j s) ! (t - j)" by (simp only: True)
  also have "\<dots> = s ! t" using assms(1,2,3) by simp
  finally have eq: "l ! (t - j) = s ! t" .
  have "t - j < length l" using assms(1,2) by simp
  then have "l ! (t - j) \<in> set l" by (rule nth_mem)
  with eq assms(4) show ?thesis by simp
qed

lemma field_exists_shift:
  "rmatch [Lit l, Plus c1, Plus c2] s (off + j) \<noteq> None
     \<longleftrightarrow> rmatch [Lit l, Plus c1, Plus c2] (drop off s) j \<noteq> None"
  unfolding field_exists run_def by (simp add: add.commute add.left_commute)

lemma no_field_before:
  assumes lne: "l \<noteq> []" and l1: "\<not> c1 (last l)" and ld: "\<forall>x \<in> set l. \<not> is_digit x"
    and dig: "\<forall>x. is_digit x \<longrightarrow> \<not> c1 x \<and> c2 x"
    and ds: "ds \<noteq> []" "\<forall>x \<in> set ds. is_digit x"
    and h1: "re_exec [Lit l, Plus c1, Plus c2] (X @ ''0'') 0 = None"
    and h2: "re_exec [Lit l, Plus c1, Plus c2] (Y @ l) 0 = None"
    and A: "A = X @ ds @ Y"
    and j: "j < length A"
  shows "rmatch [Lit l, Plus c1, Plus c2] (A @ l @ rest) j = None"
proof -
  let ?re = "[Lit l, Plus c1, Plus c2]"
  let ?s = "X @ ds @ Y @ l @ rest"
  have s: "A @ l @ rest = ?s" by (simp add: A)
  have d0: "is_digit (CHR ''0'')" by (simp add: is_digit_def)
  have dsn: "is_digit (ds ! i)" if "i < length ds" for i using that ds(2) by simp
  consider (a) "j + length l \<le> length X"
    | (b) "length X < j + length l" "j < length X + length ds"
    | (c) "length X + length ds \<le> j"
    by linarith
  then have "rmatch ?re ?s j = None"
  proof cases
    case a
    show ?thesis
    proof (rule ccontr)
      assume ex: "rmatch ?re ?s j \<noteq> None"
      have "rmatch ?re (X @ ''0'') j \<noteq> None"
        using ex
      proof (rule field_exists_transfer [where t = "length X"])
        show "take (length X) ?s = take (length X) (X @ ''0'')" by simp
        show "length X < length ?s" using ds(1) by simp
        show "length X < length (X @ ''0'')" by simp
        have "?s ! length X = ds ! 0" using ds(1) by (simp add: nth_append)
        moreover have "is_digit (ds ! 0)" using ds(1) by (intro dsn) simp
        ultimately show "\<not> c1 (?s ! length X)" using dig by simp
        show "c2 (?s ! length X) \<longrightarrow> c2 ((X @ ''0'') ! length X)" using dig d0 by simp
        show "j + length l \<le> length X" by (rule a)
      qed
      moreover have "rmatch ?re (X @ ''0'') j = None"
        using h1 a by (simp add: re_exec_0_None_iff)
      ultimately show False by simp
    qed
  next
    case b
    let ?t = "max j (length X)"
    have t1: "j \<le> ?t" by simp
    have t2: "?t < j + length l" using b(1) lne by (simp add: max_def)
    have t3: "?t < length X + length ds" using b(2) ds(1) by (simp add: max_def)
    define i where "i = ?t - length X"
    have i: "?t = length X + i" "i < length ds"
      using t3 ds(1) b(2) by (auto simp: i_def max_def)
    have "?s ! (length X + i) = (ds @ Y @ l @ rest) ! i" by (rule nth_append_length_plus)
    also have "\<dots> = ds ! i" using i(2) by (simp add: nth_append)
    finally have "?s ! ?t = ds ! i" by (simp only: i(1))
    moreover have "is_digit (ds ! i)" using i(2) by (rule dsn)
    ultimately have "?s ! ?t \<notin> set l" using ld by auto
    with t1 t2 show ?thesis using t3 by (intro literal_mismatch [where t = ?t]) simp_all
  next
    case c
    let ?off = "length X + length ds"
    let ?j' = "j - ?off"
    have j': "?j' < length Y" using c j by (simp add: A)
    have dr: "drop ?off ?s = Y @ l @ rest" by simp
    show ?thesis
    proof (rule ccontr)
      assume "rmatch ?re ?s j \<noteq> None"
      then have "rmatch ?re ?s (?off + ?j') \<noteq> None" using c by simp
      then have ex: "rmatch ?re (Y @ l @ rest) ?j' \<noteq> None"
        unfolding field_exists_shift dr .
      let ?t = "length Y + (length l - 1)"
      have lpos: "0 < length l" using lne by simp
      have lt: "(Y @ l @ rest) ! ?t = last l" "(Y @ l) ! ?t = last l"
        using lne lpos by (simp_all add: nth_append last_conv_nth)
      have "rmatch ?re (Y @ l) ?j' \<noteq> None"
        using ex
      proof (rule field_exists_transfer [where t = ?t])
        show "take ?t (Y @ l @ rest) = take ?t (Y @ l)" by (rule take_within) simp
        show "?t < length (Y @ l @ rest)" using lne by (cases l) simp_all
        show "?t < length (Y @ l)" using lne by (cases l) simp_all
        show "\<not> c1 ((Y @ l @ rest) ! ?t)" using l1 lt by simp
        show "c2 ((Y @ l @ rest) ! ?t) \<longrightarrow> c2 ((Y @ l) ! ?t)" using lt by simp
        show "?j' + length l \<le> ?t" using j' lne by (cases l) simp_all
      qed
      moreover have "rmatch ?re (Y @ l) ?j' = None"
        using h2 j' by (simp add: re_exec_0_None_iff)
      ultimately show False by simp
    qed
  qed
  then show ?thesis by (simp only: s)
qed

lemma no_label_before:
  assumes lne: "l \<noteq> []" and l1: "\<not> c1 (last l)"
    and h: "re_exec [Lit l, Plus c1, Plus c2] (A @ l) 0 = None"
    and j: "j < length A"
  shows "rmatch [Lit l, Plus c1, Plus c2] (A @ l @ rest) j = None"
proof (rule ccontr)
  let ?re = "[Lit l, Plus c1, Plus c2]"
  let ?t = "length A + (length l - 1)"
  assume ex: "rmatch ?re (A @ l @ rest) j \<noteq> None"
  have lpos: "0 < length l" using lne by simp
  have lt: "(A @ l @ rest) ! ?t = last l" "(A @ l) ! ?t = last l"
    using lne lpos by (simp_all add: nth_append last_conv_nth)
  have "rmatch ?re (A @ l) j \<noteq> None"
    using ex
  proof (rule field_exists_transfer [where t = ?t])
    show "take ?t (A @ l @ rest) = take ?t (A @ l)" by (rule take_within) simp
    show "?t < length (A @ l @ rest)" using lne by (cases l) simp_all
    show "?t < length (A @ l)" using lne by (cases l) simp_all
    show "\<not> c1 ((A @ l @ rest) ! ?t)" using l1 lt by simp
    show "c2 ((A @ l @ rest) ! ?t) \<longrightarrow> c2 ((A @ l) ! ?t)" using lt by simp
    show "j + length l \<le> ?t" using j lne by (cases l) simp_all
  qed
  moreover have "rmatch ?re (A @ l) j = None"
    using h j by (simp add: re_exec_0_None_iff)
  ultimately show False by simp
qed

text \<open>
  The decimal text of a number is made of digits and reads back as the number, exactly
  so up to \<open>2^53\<close>.
\<close>

lemma digit_char_props:
  "d < 10 \<Longrightarrow> is_digit (digit_char d) \<and> digit_value (digit_char d) = d"
proof -
  assume "d < 10"
  then have "d \<in> {0, 1, 2, 3, 4, 5, 6, 7, 8, 9}" by auto
  then show ?thesis
    by (auto simp: digit_char_def is_digit_def digit_value_def)
qed

lemma decimal_value_snoc: "decimal_value (ds @ [c]) = 10 * decimal_value ds + digit_value c"
  by (simp add: decimal_value_def)

lemma show_nat_props:
  "show_nat n \<noteq> [] \<and> (\<forall>c \<in> set (show_nat n). is_digit c) \<and> decimal_value (show_nat n) = n"
proof (induction n rule: show_nat.induct)
  case (1 n)
  show ?case
  proof (cases "n < 10")
    case True
    then have "show_nat n = [digit_char n]" by (simp add: show_nat.simps [of n])
    with digit_char_props [OF True] show ?thesis by (simp add: decimal_value_def)
  next
    case False
    then have eq: "show_nat n = show_nat (n div 10) @ [digit_char (n mod 10)]"
      by (simp add: show_nat.simps [of n])
    have "n mod 10 < 10" by simp
    from digit_char_props [OF this] "1.IH" [OF False] show ?thesis
      unfolding eq by (simp add: decimal_value_snoc)
  qed
qed

lemma exact_iff: "exact n \<longleftrightarrow> n \<le> 2 ^ 53"
  by (simp add: exact_def)

lemma exact_less: "exact (n + k) \<Longrightarrow> exact n"
  by (simp add: exact_def)

lemma parseInt_show_nat: "exact n \<Longrightarrow> parseInt (show_nat n) = Exactly n"
  by (simp add: parseInt_def show_nat_props)

lemma digit_facts: "is_digit c \<Longrightarrow> \<not> is_space c \<and> dot c \<and> c \<noteq> CHR 0x0A"
  by (auto simp: is_digit_def is_space_def dot_def is_line_terminator_def)

lemma digits_plain: "\<forall>x. is_digit x \<longrightarrow> \<not> is_space x \<and> dot x"
  using digit_facts by blast

text \<open>Splitting a text that starts with whole lines, and joining lines.\<close>

lemma split_on_line:
  "d \<notin> set l \<Longrightarrow> split_on d (l @ d # X) = l # split_on d X"
  by (induction l) (auto split: list.splits)

lemma split_on_lines_text:
  "\<forall>l \<in> set ls. CHR 0x0A \<notin> set l \<Longrightarrow>
     split_on (CHR 0x0A) (lines_text ls @ X) = ls @ split_on (CHR 0x0A) X"
proof (induction ls)
  case Nil
  then show ?case by (simp add: lines_text_def)
next
  case (Cons l ls)
  then have IH: "split_on (CHR 0x0A) (lines_text ls @ X) = ls @ split_on (CHR 0x0A) X"
    and l: "CHR 0x0A \<notin> set l" by simp_all
  have "lines_text (l # ls) @ X = l @ CHR 0x0A # (lines_text ls @ X)"
    by (simp add: lines_text_def)
  then show ?case using split_on_line [OF l] IH by simp
qed

lemma join_snoc_lines_text: "join [CHR 0x0A] (ls @ [x]) = lines_text ls @ x"
proof (induction ls)
  case Nil
  then show ?case by (simp add: lines_text_def)
next
  case (Cons l ls)
  then show ?case by (cases ls) (simp_all add: lines_text_def)
qed

lemma export_text_lines:
  "export_text firstLines n midLines runISO runLocal body
     = lines_text (firstLines @ [''**Total Messages:** '' @ show_nat n] @ midLines
          @ [''**Last Run:** '' @ runISO, ''**Last Run (Local):** '' @ runLocal, [], ''---''])
       @ CHR 0x0A # body"
proof -
  have "header_lines firstLines n midLines runISO runLocal
      = (firstLines @ [''**Total Messages:** '' @ show_nat n] @ midLines
           @ [''**Last Run:** '' @ runISO]) @ [''**Last Run (Local):** '' @ runLocal]"
    by (simp add: header_lines_def)
  then have "join [CHR 0x0A] (header_lines firstLines n midLines runISO runLocal)
      = lines_text (firstLines @ [''**Total Messages:** '' @ show_nat n] @ midLines
           @ [''**Last Run:** '' @ runISO]) @ ''**Last Run (Local):** '' @ runLocal"
    by (simp only: join_snoc_lines_text)
  then show ?thesis
    by (simp add: export_text_def lines_text_def)
qed

lemma export_text_append:
  "export_text F n M i l b @ x = export_text F n M i l (b @ x)"
  by (simp add: export_text_def)

text \<open>
  The header reader on a well-formed layout: it goes through the header lines up to the
  separator, and the count it keeps is that of the count line.
\<close>

lemma parse_line_total_none:
  "re_exec totalMessagesRegex l 0 = None \<Longrightarrow>
     totalMessages (parse_line D l md) = totalMessages md"
  by (simp add: parse_line_def Let_def split: option.splits)

lemma parse_line_total_some:
  "re_exec totalMessagesRegex l 0 = Some m \<Longrightarrow>
     totalMessages (parse_line D l md) = parseInt (piece l m 2)"
  by (simp add: parse_line_def Let_def split: option.splits)

lemma parse_lines_skip:
  "\<forall>l \<in> set ls. trim l \<noteq> ''---'' \<Longrightarrow>
     parse_lines D (ls @ rest) md = parse_lines D rest (fold (parse_line D) ls md)"
  by (induction ls arbitrary: md) (simp_all add: Let_def)

lemma fold_parse_line_total:
  "\<forall>l \<in> set ls. re_exec totalMessagesRegex l 0 = None \<Longrightarrow>
     totalMessages (fold (parse_line D) ls md) = totalMessages md"
  by (induction ls arbitrary: md) (simp_all add: parse_line_total_none)

lemma trim_keeps_head:
  assumes "s \<noteq> []" and "\<not> is_space (hd s)"
  shows "trim s \<noteq> [] \<and> hd (trim s) = hd s"
proof -
  from assms obtain c cs where s: "s = c # cs" and c: "\<not> is_space c" by (cases s) auto
  have d: "dropWhile is_space s = s" using s c by simp
  have "\<exists>ys. dropWhile is_space (rev cs @ [c]) = ys @ [c]"
  proof (induction "rev cs" arbitrary: cs)
    case Nil
    then show ?case using c by simp
  next
    case (Cons x xs)
    then have r: "rev cs = x # xs" by simp
    have "xs = rev (rev xs)" by simp
    from Cons.hyps(1) [OF this] obtain ys where ys: "dropWhile is_space (rev (rev xs) @ [c]) = ys @ [c]"
      by blast
    show ?case
    proof (cases "is_space x")
      case True
      then show ?thesis using r ys by simp
    next
      case False
      then show ?thesis using r by simp
    qed
  qed
  then obtain ys where "dropWhile is_space (rev s) = ys @ [c]" using s by auto
  then have "trim s = c # rev ys" by (simp add: trim_def d)
  then show ?thesis using s by simp
qed

lemma labelled_line_no_separator:
  "trim (CHR ''*'' # x) \<noteq> ''---''"
proof
  assume a: "trim (CHR ''*'' # x) = ''---''"
  have "hd (trim (CHR ''*'' # x)) = CHR ''*''"
    using trim_keeps_head [of "CHR ''*'' # x"] by (simp add: is_space_def)
  with a show False by simp
qed

lemma trim_short: "trim [] = []" "trim ''---'' = ''---''"
  by (simp_all add: trim_def is_space_def)

lemma no_total_in_short: "re_exec totalMessagesRegex [] 0 = None"
  "re_exec totalMessagesRegex ''---'' 0 = None"
  by code_simp+

lemma field_value_line: "field_value v \<Longrightarrow> CHR 0x0A \<notin> set v"
  by (auto simp: field_value_def dot_def is_line_terminator_def)

lemma show_nat_line: "CHR 0x0A \<notin> set (show_nat n)"
  using show_nat_props [of n] digit_facts by blast

lemma total_line_match:
  "re_exec totalMessagesRegex (''**Total Messages:** '' @ show_nat n) 0
     = Some (0, [19, 20, 20 + length (show_nat n)])"
proof -
  note sn = show_nat_props [of n]
  have v: "show_nat n \<noteq> []" "\<not> is_space (hd (show_nat n))"
      "\<forall>x \<in> set (show_nat n). is_digit x"
    using sn digit_facts by (simp_all add: hd_in_set)
  have "rmatch [Lit ''**Total Messages:**'', Plus is_space, Plus is_digit]
      ([] @ ''**Total Messages:**'' @ '' '' @ show_nat n @ []) (length ([] :: string))
     = Some [length ([] :: string) + length ''**Total Messages:**'',
             length ([] :: string) + length ''**Total Messages:**'' + length '' '',
             length ([] :: string) + length ''**Total Messages:**'' + length '' ''
               + length (show_nat n)]"
    using _ _ v by (rule value_in_context) (simp_all add: is_space_def)
  then have "rmatch totalMessagesRegex (''**Total Messages:** '' @ show_nat n) 0
     = Some [19, 20, 20 + length (show_nat n)]"
    by (simp add: totalMessagesRegex_def)
  then show ?thesis by (intro re_exec_first) simp_all
qed

lemma total_line_count:
  assumes "exact n"
  shows "totalMessages (parse_line D (''**Total Messages:** '' @ show_nat n) md) = Exactly n"
proof -
  have "piece (''**Total Messages:** '' @ show_nat n) (0, [19, 20, 20 + length (show_nat n)]) 2
      = show_nat n"
    by (simp add: piece_def Let_def numeral_3_eq_3 numeral_2_eq_2)
  with parse_line_total_some [OF total_line_match, of D n md] assms
  show ?thesis by (simp add: parseInt_show_nat)
qed

lemma reader_count:
  assumes wf: "well_formed_header firstLines midLines runISO runLocal" and n: "exact n"
  shows "totalMessages
       (parse_lines D (split_on (CHR 0x0A)
          (export_text firstLines n midLines runISO runLocal body)) initial_metadata)
     = Exactly n"
proof -
  let ?TL = "''**Total Messages:** '' @ show_nat n"
  let ?LR = "''**Last Run:** '' @ runISO"
  let ?LL = "''**Last Run (Local):** '' @ runLocal"
  let ?tail = "midLines @ [?LR, ?LL, []]"
  let ?f = "parse_line D"
  from wf have hl: "\<forall>l \<in> set (firstLines @ midLines). header_line l"
    and mid: "\<forall>l \<in> set midLines. re_exec totalMessagesRegex l 0 = None"
    and vi: "field_value runISO" and vl: "field_value runLocal"
    and ti: "re_exec totalMessagesRegex ?LR 0 = None"
    and tl: "re_exec totalMessagesRegex ?LL 0 = None"
    by (simp_all add: well_formed_header_def)
  have nolf: "\<forall>l \<in> set (firstLines @ [?TL] @ ?tail @ [''---'']). CHR 0x0A \<notin> set l"
    using hl field_value_line [OF vi] field_value_line [OF vl] show_nat_line [of n]
    by (auto simp: header_line_def)
  have nosep: "\<forall>l \<in> set (firstLines @ [?TL] @ ?tail). trim l \<noteq> ''---''"
    using hl labelled_line_no_separator by (auto simp: header_line_def trim_short)
  have tailnone: "\<forall>l \<in> set ?tail. re_exec totalMessagesRegex l 0 = None"
    using mid ti tl no_total_in_short(1) by auto
  have "export_text firstLines n midLines runISO runLocal body
      = lines_text ((firstLines @ [?TL] @ ?tail) @ [''---'']) @ CHR 0x0A # body"
    by (simp add: export_text_lines)
  then have "split_on (CHR 0x0A) (export_text firstLines n midLines runISO runLocal body)
      = (firstLines @ [?TL] @ ?tail) @ ''---'' # split_on (CHR 0x0A) (CHR 0x0A # body)"
    using split_on_lines_text [of "(firstLines @ [?TL] @ ?tail) @ [''---'']" "CHR 0x0A # body"] nolf
    by simp
  then have "parse_lines D (split_on (CHR 0x0A)
          (export_text firstLines n midLines runISO runLocal body)) initial_metadata
      = parse_lines D (''---'' # split_on (CHR 0x0A) (CHR 0x0A # body))
          (fold ?f (firstLines @ [?TL] @ ?tail) initial_metadata)"
    using parse_lines_skip [OF nosep] by simp
  also have "\<dots> = ?f ''---'' (fold ?f (firstLines @ [?TL] @ ?tail) initial_metadata)"
    by (simp add: Let_def trim_short)
  finally have "totalMessages (parse_lines D (split_on (CHR 0x0A)
          (export_text firstLines n midLines runISO runLocal body)) initial_metadata)
      = totalMessages (fold ?f (firstLines @ [?TL] @ ?tail) initial_metadata)"
    by (simp add: parse_line_total_none no_total_in_short)
  also have "\<dots> = totalMessages (fold ?f ?tail (?f ?TL (fold ?f firstLines initial_metadata)))"
    by simp
  also have "\<dots> = totalMessages (?f ?TL (fold ?f firstLines initial_metadata))"
    using tailnone by (rule fold_parse_line_total)
  also have "\<dots> = Exactly n" using n by (rule total_line_count)
  finally show ?thesis .
qed

text \<open>
  The three rewrites on a well-formed layout: each finds its own field and replaces it,
  so each gives the layout again with the new count or the new value.
\<close>

lemma rewriteTotal_layout:
  assumes h: "re_exec totalMessagesRegex (lines_text F @ ''**Total Messages:**'') 0 = None"
    and ex: "exact (n + k)"
  shows "rewriteTotal numToString (export_text F n M i l b) k = export_text F (n + k) M i l b"
proof -
  define R where "R = CHR 0x0A # lines_text M @ ''**Last Run:** '' @ i @ CHR 0x0A
      # ''**Last Run (Local):** '' @ l @ CHR 0x0A # CHR 0x0A # ''---'' @ [CHR 0x0A, CHR 0x0A] @ b"
  let ?A = "lines_text F"
  let ?L = "''**Total Messages:**''"
  let ?re = "[Lit ?L, Plus is_space, Plus is_digit]"
  have shape: "export_text F m M i l b = ?A @ ?L @ '' '' @ show_nat m @ R" for m
    by (simp add: export_text_lines lines_text_def R_def)
  note sn = show_nat_props [of n]
  have h': "re_exec ?re (?A @ ?L) 0 = None" using h by (simp only: totalMessagesRegex_def)
  have none: "\<forall>j < length ?A. rmatch ?re (?A @ ?L @ '' '' @ show_nat n @ R) j = None"
  proof (intro allI impI)
    fix j assume "j < length ?A"
    with _ _ h' show "rmatch ?re (?A @ ?L @ '' '' @ show_nat n @ R) j = None"
      by (rule no_label_before) (simp_all add: is_space_def)
  qed
  have w: "'' '' \<noteq> []" "\<forall>x \<in> set '' ''. is_space x" by (simp_all add: is_space_def)
  have v: "show_nat n \<noteq> []" "\<not> is_space (hd (show_nat n))" "\<forall>x \<in> set (show_nat n). is_digit x"
    using sn digit_facts by (simp_all add: hd_in_set)
  have Rr: "R = [] \<or> \<not> is_digit (hd R)" by (simp add: R_def is_digit_def)
  note lf = labelled_field [of "'' ''" is_space "show_nat n" is_digit R ?A ?L, OF w v Rr none]
  have exn: "exact n" using ex by (rule exact_less)
  have "rewriteTotal numToString (?A @ ?L @ '' '' @ show_nat n @ R) k
      = ?A @ (''**Total Messages:** '' @ show_nat (n + k)) @ R"
    by (simp only: rewriteTotal_def totalMessagesRegex_def lf option.case Let_def
        parseInt_show_nat [OF exn] add_length.simps number_text.simps ex if_True)
  also have "\<dots> = ?A @ ?L @ '' '' @ show_nat (n + k) @ R" by simp
  finally show ?thesis by (simp only: shape)
qed

lemma rewriteLastRun_layout:
  assumes v: "field_value i"
    and h1: "re_exec lastRunRegex (lines_text F @ ''**Total Messages:** 0'') 0 = None"
    and h2: "re_exec lastRunRegex ([CHR 0x0A] @ lines_text M @ ''**Last Run:**'') 0 = None"
  shows "rewriteLastRun (export_text F n M i l b) i' = export_text F n M i' l b"
proof -
  define X where "X = lines_text F @ ''**Total Messages:** ''"
  define Y where "Y = CHR 0x0A # lines_text M"
  define R where "R = CHR 0x0A # ''**Last Run (Local):** '' @ l @ CHR 0x0A # CHR 0x0A
      # ''---'' @ [CHR 0x0A, CHR 0x0A] @ b"
  let ?A = "X @ show_nat n @ Y"
  let ?L = "''**Last Run:**''"
  let ?re = "[Lit ?L, Plus is_space, Plus dot]"
  have shape: "export_text F n M x l b = ?A @ ?L @ '' '' @ x @ R" for x
    by (simp add: export_text_lines lines_text_def X_def Y_def R_def)
  note sn = show_nat_props [of n]
  have h1': "re_exec ?re (X @ ''0'') 0 = None" using h1 by (simp add: lastRunRegex_def X_def)
  have h2': "re_exec ?re (Y @ ?L) 0 = None" using h2 by (simp add: lastRunRegex_def Y_def)
  have none: "\<forall>j < length ?A. rmatch ?re (?A @ ?L @ '' '' @ i @ R) j = None"
  proof (intro allI impI)
    fix j assume j: "j < length ?A"
    show "rmatch ?re (?A @ ?L @ '' '' @ i @ R) j = None"
    proof (rule no_field_before [where ds = "show_nat n" and X = X and Y = Y])
      show "?L \<noteq> []" by simp
      show "\<not> is_space (last ?L)" by (simp add: is_space_def)
      show "\<forall>x \<in> set ?L. \<not> is_digit x" by (simp add: is_digit_def)
      show "\<forall>x. is_digit x \<longrightarrow> \<not> is_space x \<and> dot x" by (rule digits_plain)
      show "show_nat n \<noteq> []" using sn by simp
      show "\<forall>x \<in> set (show_nat n). is_digit x" using sn by simp
      show "re_exec ?re (X @ ''0'') 0 = None" by (rule h1')
      show "re_exec ?re (Y @ ?L) 0 = None" by (rule h2')
      show "?A = X @ show_nat n @ Y" by (rule refl)
      show "j < length ?A" by (rule j)
    qed
  qed
  have w: "'' '' \<noteq> []" "\<forall>x \<in> set '' ''. is_space x" by (simp_all add: is_space_def)
  have vv: "i \<noteq> []" "\<not> is_space (hd i)" "\<forall>x \<in> set i. dot x"
    using v by (simp_all add: field_value_def)
  have Rr: "R = [] \<or> \<not> dot (hd R)" by (simp add: R_def dot_def is_line_terminator_def)
  note lf = labelled_field [of "'' ''" is_space i dot R ?A ?L, OF w vv Rr none]
  have "rewriteLastRun (?A @ ?L @ '' '' @ i @ R) i' = ?A @ (''**Last Run:** '' @ i') @ R"
    by (simp only: rewriteLastRun_def lastRunRegex_def lf)
  also have "\<dots> = ?A @ ?L @ '' '' @ i' @ R" by simp
  finally show ?thesis by (simp only: shape)
qed

lemma rewriteLastRunLocal_layout:
  assumes v: "field_value l"
    and h1: "re_exec lastRunLocalRegex (lines_text F @ ''**Total Messages:** 0'') 0 = None"
    and h2: "re_exec lastRunLocalRegex
           ([CHR 0x0A] @ lines_text M @ ''**Last Run:** '' @ i @ [CHR 0x0A]
              @ ''**Last Run (Local):**'') 0 = None"
  shows "rewriteLastRunLocal (export_text F n M i l b) l' = export_text F n M i l' b"
proof -
  define X where "X = lines_text F @ ''**Total Messages:** ''"
  define Y where "Y = CHR 0x0A # lines_text M @ ''**Last Run:** '' @ i @ [CHR 0x0A]"
  define R where "R = CHR 0x0A # CHR 0x0A # ''---'' @ [CHR 0x0A, CHR 0x0A] @ b"
  let ?A = "X @ show_nat n @ Y"
  let ?L = "''**Last Run (Local):**''"
  let ?re = "[Lit ?L, Plus is_space, Plus dot]"
  have shape: "export_text F n M i x b = ?A @ ?L @ '' '' @ x @ R" for x
    by (simp add: export_text_lines lines_text_def X_def Y_def R_def)
  note sn = show_nat_props [of n]
  have h1': "re_exec ?re (X @ ''0'') 0 = None" using h1 by (simp add: lastRunLocalRegex_def X_def)
  have h2': "re_exec ?re (Y @ ?L) 0 = None" using h2 by (simp add: lastRunLocalRegex_def Y_def)
  have none: "\<forall>j < length ?A. rmatch ?re (?A @ ?L @ '' '' @ l @ R) j = None"
  proof (intro allI impI)
    fix j assume j: "j < length ?A"
    show "rmatch ?re (?A @ ?L @ '' '' @ l @ R) j = None"
    proof (rule no_field_before [where ds = "show_nat n" and X = X and Y = Y])
      show "?L \<noteq> []" by simp
      show "\<not> is_space (last ?L)" by (simp add: is_space_def)
      show "\<forall>x \<in> set ?L. \<not> is_digit x" by (simp add: is_digit_def)
      show "\<forall>x. is_digit x \<longrightarrow> \<not> is_space x \<and> dot x" by (rule digits_plain)
      show "show_nat n \<noteq> []" using sn by simp
      show "\<forall>x \<in> set (show_nat n). is_digit x" using sn by simp
      show "re_exec ?re (X @ ''0'') 0 = None" by (rule h1')
      show "re_exec ?re (Y @ ?L) 0 = None" by (rule h2')
      show "?A = X @ show_nat n @ Y" by (rule refl)
      show "j < length ?A" by (rule j)
    qed
  qed
  have w: "'' '' \<noteq> []" "\<forall>x \<in> set '' ''. is_space x" by (simp_all add: is_space_def)
  have vv: "l \<noteq> []" "\<not> is_space (hd l)" "\<forall>x \<in> set l. dot x"
    using v by (simp_all add: field_value_def)
  have Rr: "R = [] \<or> \<not> dot (hd R)" by (simp add: R_def dot_def is_line_terminator_def)
  note lf = labelled_field [of "'' ''" is_space l dot R ?A ?L, OF w vv Rr none]
  have "rewriteLastRunLocal (?A @ ?L @ '' '' @ l @ R) l'
      = ?A @ (''**Last Run (Local):** '' @ l') @ R"
    by (simp only: rewriteLastRunLocal_def lastRunLocalRegex_def lf)
  also have "\<dots> = ?A @ ?L @ '' '' @ l' @ R" by simp
  finally show ?thesis by (simp only: shape)
qed

lemma append_layout:
  assumes old: "well_formed_header F M i l" and new: "well_formed_header F M i' l'"
    and ex: "exact (n + length newMessages)" and ne: "newMessages \<noteq> []"
    and exists: "fs outputPath = Some (export_text F n M i l b)"
  shows "appendMessagesToExport dstr fmt numToString i' l' fs outputPath newMessages groupByDate
     = (fs(outputPath \<mapsto> export_text F (n + length newMessages) M i' l'
            (b @ [CHR 0x0A] @ (if groupByDate then generateGroupedByDate dstr fmt newMessages
                               else generateSequential fmt newMessages))),
        Inr (length newMessages))"
proof -
  let ?k = "length newMessages"
  from old have t: "re_exec totalMessagesRegex (lines_text F @ ''**Total Messages:**'') 0 = None"
    and vi: "field_value i" and vl: "field_value l"
    and r1: "re_exec lastRunRegex (lines_text F @ ''**Total Messages:** 0'') 0 = None"
    and r2: "re_exec lastRunRegex ([CHR 0x0A] @ lines_text M @ ''**Last Run:**'') 0 = None"
    and l1: "re_exec lastRunLocalRegex (lines_text F @ ''**Total Messages:** 0'') 0 = None"
    by (simp_all add: well_formed_header_def)
  from new have l2: "re_exec lastRunLocalRegex
           ([CHR 0x0A] @ lines_text M @ ''**Last Run:** '' @ i' @ [CHR 0x0A]
              @ ''**Last Run (Local):**'') 0 = None"
    by (simp add: well_formed_header_def)
  have s1: "rewriteTotal numToString (export_text F n M i l b) ?k = export_text F (n + ?k) M i l b"
    using t ex by (rule rewriteTotal_layout)
  have s2: "rewriteLastRun (export_text F (n + ?k) M i l b) i' = export_text F (n + ?k) M i' l b"
    using vi r1 r2 by (rule rewriteLastRun_layout)
  have s3: "rewriteLastRunLocal (export_text F (n + ?k) M i' l b) l'
      = export_text F (n + ?k) M i' l' b"
    using vl l1 l2 by (rule rewriteLastRunLocal_layout)
  show ?thesis
    using ne exists
    by (simp add: appendMessagesToExport_def Let_def s1 s2 s3 export_text_append
        del: append_assoc)
qed

text \<open>What \<open>generateRAGDocument\<close> writes with a header has this layout.\<close>

lemma generateRAGDocument_layout:
  assumes "opt_includeMetadata options" and "exact (length messages)"
  shows "generateRAGDocument dstr fmt numToString nowISO nowLocal messages metadata options
     = export_text (header_first_lines metadata options) (length messages)
         (header_mid_lines metadata) nowISO nowLocal
         (if opt_groupByDate options then generateGroupedByDate dstr fmt messages
          else generateSequential fmt messages)"
  using assms
  by (simp add: generateRAGDocument_def generateHeader_def export_text_def header_lines_def)

text \<open>
  The text made for the new messages: the rendering of each message once, under the
  heading of its date when grouped by date.
\<close>

lemma mset_filter_disjoint:
  "\<forall>x. \<not> (P x \<and> Q x) \<Longrightarrow>
     mset (filter P xs) + mset (filter Q xs) = mset (filter (\<lambda>x. P x \<or> Q x) xs)"
  by (induction xs) auto

lemma mset_concat_by_key:
  "distinct ds \<Longrightarrow>
     mset (concat (map (\<lambda>d. filter (\<lambda>m. key m = d) msgs) ds))
       = mset (filter (\<lambda>m. key m \<in> set ds) msgs)"
proof (induction ds)
  case Nil
  then show ?case by simp
next
  case (Cons d ds)
  then have IH: "mset (concat (map (\<lambda>d. filter (\<lambda>m. key m = d) msgs) ds))
       = mset (filter (\<lambda>m. key m \<in> set ds) msgs)" and d: "d \<notin> set ds"
    by simp_all
  have "mset (filter (\<lambda>m. key m = d) msgs) + mset (filter (\<lambda>m. key m \<in> set ds) msgs)
      = mset (filter (\<lambda>m. key m = d \<or> key m \<in> set ds) msgs)"
    by (rule mset_filter_disjoint) (use d in auto)
  then show ?case by (simp add: IH)
qed

lemma grouped_text_blocks:
  "\<exists>dates. generateGroupedByDate dstr fmt msgs
       = join [CHR 0x0A]
           (concat (map (\<lambda>d. (''## '' @ d @ [CHR 0x0A])
                            # map fmt (filter (\<lambda>m. dstr (createdDateTime m) = d) msgs)
                            @ [[]]) dates))
     \<and> distinct dates
     \<and> mset (concat (map (\<lambda>d. filter (\<lambda>m. dstr (createdDateTime m) = d) msgs) dates))
         = mset msgs"
proof -
  let ?g = "group_messages dstr msgs"
  have inv: "group_inv dstr msgs ?g" by (rule group_messages_inv)
  note sf = sortedDates_facts [OF inv]
  have "mset (concat (map (\<lambda>d. filter (\<lambda>m. date_key dstr m = d) msgs) (sortedDates ?g)))
      = mset (filter (\<lambda>m. date_key dstr m \<in> set (sortedDates ?g)) msgs)"
    using sf(1) by (rule mset_concat_by_key)
  also have "filter (\<lambda>m. date_key dstr m \<in> set (sortedDates ?g)) msgs = msgs"
    unfolding sf(2) by (induction msgs) auto
  finally show ?thesis
    using grouped_text [of dstr fmt msgs] sf(1)
    by (intro exI [of _ "sortedDates ?g"]) (simp add: date_key_def [abs_def])
qed

lemma sequential_text:
  "generateSequential fmt msgs
     = join [CHR 0x0A] ((''## Chat Messages'' @ [CHR 0x0A]) # map fmt msgs)"
  by (simp add: generateSequential_def sequential_parts_def comp_def)

text \<open>
  C2, as the code has it. Take an export file with the layout that the generator writes
  and a well-formed header holding the count \<open>n\<close>, new timestamps that keep the header
  well formed, and new messages with which the count stays within \<open>2^53\<close>. Then the
  append succeeds and returns the number of new messages; the header reader reads the
  count \<open>n\<close> from the file before and \<open>n\<close> plus that number after; and, when there is a
  new message, the file afterwards is the same layout with the new count and the new
  timestamps, its body the old body, a line feed, and the new content: the renderings
  of the new messages, each once, in their input order under the heading
  \<open>## Chat Messages\<close>, or, grouped by date, each date once with its heading and its
  messages in their input order.
\<close>

theorem C2_count_rises_by_number_appended:
  assumes exists: "fs outputPath
        = Some (export_text firstLines n midLines runISO runLocal body)"
    and old: "well_formed_header firstLines midLines runISO runLocal"
    and new: "well_formed_header firstLines midLines nowISO nowLocal"
    and bound: "n + length newMessages \<le> 2 ^ 53"
  shows "snd (appendMessagesToExport dstr fmt numToString nowISO nowLocal fs outputPath
                newMessages groupByDate)
        = Inr (length newMessages)
      \<and> map_option totalMessages (parseExistingExport Date fs outputPath) = Some (Exactly n)
      \<and> map_option totalMessages
           (parseExistingExport Date
              (fst (appendMessagesToExport dstr fmt numToString nowISO nowLocal fs outputPath
                      newMessages groupByDate))
              outputPath)
          = Some (Exactly (n + length newMessages))
      \<and> (newMessages \<noteq> [] \<longrightarrow>
           (\<exists>newContent.
              fst (appendMessagesToExport dstr fmt numToString nowISO nowLocal fs outputPath
                     newMessages groupByDate)
                = fs(outputPath \<mapsto>
                    export_text firstLines (n + length newMessages) midLines nowISO nowLocal
                      (body @ [CHR 0x0A] @ newContent))
              \<and> (\<not> groupByDate \<longrightarrow>
                    newContent
                      = join [CHR 0x0A]
                          ((''## Chat Messages'' @ [CHR 0x0A]) # map fmt newMessages))
              \<and> (groupByDate \<longrightarrow>
                    (\<exists>dates.
                        newContent
                          = join [CHR 0x0A]
                              (concat (map (\<lambda>d. (''## '' @ d @ [CHR 0x0A])
                                         # map fmt (filter (\<lambda>m. dstr (createdDateTime m) = d)
                                                      newMessages)
                                         @ [[]]) dates))
                        \<and> distinct dates
                        \<and> mset (concat (map (\<lambda>d. filter (\<lambda>m. dstr (createdDateTime m) = d)
                                                    newMessages) dates))
                            = mset newMessages))))"
proof (cases "newMessages = []")
  case True
  have exn: "exact n" using bound by (simp add: exact_iff)
  have before: "map_option totalMessages (parseExistingExport Date fs outputPath)
      = Some (Exactly n)"
    using reader_count [OF old exn, of Date body] exists
    by (simp add: parseExistingExport_def)
  show ?thesis
    using True before by (simp add: appendMessagesToExport_def)
next
  case False
  let ?k = "length newMessages"
  let ?new = "if groupByDate then generateGroupedByDate dstr fmt newMessages
      else generateSequential fmt newMessages"
  let ?after = "export_text firstLines (n + ?k) midLines nowISO nowLocal
      (body @ [CHR 0x0A] @ ?new)"
  have ex: "exact (n + ?k)" using bound by (simp add: exact_iff)
  then have exn: "exact n" by (rule exact_less)
  have app: "appendMessagesToExport dstr fmt numToString nowISO nowLocal fs outputPath
        newMessages groupByDate
      = (fs(outputPath \<mapsto> ?after), Inr ?k)"
    using old new ex False exists by (rule append_layout)
  have before: "map_option totalMessages (parseExistingExport Date fs outputPath)
      = Some (Exactly n)"
    using reader_count [OF old exn, of Date body] exists
    by (simp add: parseExistingExport_def)
  have after: "map_option totalMessages
      (parseExistingExport Date (fs(outputPath \<mapsto> ?after)) outputPath)
      = Some (Exactly (n + ?k))"
    using reader_count [OF new ex, of Date "body @ [CHR 0x0A] @ ?new"]
    by (simp add: parseExistingExport_def)
  have seq: "\<not> groupByDate \<longrightarrow>
      ?new = join [CHR 0x0A] ((''## Chat Messages'' @ [CHR 0x0A]) # map fmt newMessages)"
    by (simp add: sequential_text)
  have grp: "groupByDate \<longrightarrow>
            (\<exists>dates.
                ?new
                  = join [CHR 0x0A]
                      (concat (map (\<lambda>d. (''## '' @ d @ [CHR 0x0A])
                                 # map fmt (filter (\<lambda>m. dstr (createdDateTime m) = d)
                                              newMessages)
                                 @ [[]]) dates))
                \<and> distinct dates
                \<and> mset (concat (map (\<lambda>d. filter (\<lambda>m. dstr (createdDateTime m) = d)
                                            newMessages) dates))
                    = mset newMessages)"
    using grouped_text_blocks [of dstr fmt newMessages] by simp
  have "\<exists>newContent.
      fs(outputPath \<mapsto> ?after)
        = fs(outputPath \<mapsto>
            export_text firstLines (n + ?k) midLines nowISO nowLocal
              (body @ [CHR 0x0A] @ newContent))
      \<and> (\<not> groupByDate \<longrightarrow>
            newContent
              = join [CHR 0x0A] ((''## Chat Messages'' @ [CHR 0x0A]) # map fmt newMessages))
      \<and> (groupByDate \<longrightarrow>
            (\<exists>dates.
                newContent
                  = join [CHR 0x0A]
                      (concat (map (\<lambda>d. (''## '' @ d @ [CHR 0x0A])
                                 # map fmt (filter (\<lambda>m. dstr (createdDateTime m) = d)
                                              newMessages)
                                 @ [[]]) dates))
                \<and> distinct dates
                \<and> mset (concat (map (\<lambda>d. filter (\<lambda>m. dstr (createdDateTime m) = d)
                                            newMessages) dates))
                    = mset newMessages))"
    using seq grp by (intro exI [of _ ?new]) blast
  with before after show ?thesis
    by (simp only: app fst_conv snd_conv) blast
qed

theorem C2_count_rises_by_number_appended_witness:
  "first_export
     = export_text (header_first_lines example_metadata example_options) 1
         (header_mid_lines example_metadata)
         ''2025-10-06T15:52:35.000Z'' ''10/6/2025''
         (generateGroupedByDate example_day example_fmt [msg_at 50])
   \<and> well_formed_header (header_first_lines example_metadata example_options)
         (header_mid_lines example_metadata)
         ''2025-10-06T15:52:35.000Z'' ''10/6/2025''
   \<and> well_formed_header (header_first_lines example_metadata example_options)
         (header_mid_lines example_metadata)
         ''2025-10-07T08:00:00.000Z'' ''10/7/2025''
   \<and> snd (appendMessagesToExport example_day example_fmt example_numToString
             ''2025-10-07T08:00:00.000Z'' ''10/7/2025''
             [''chat.md'' \<mapsto> first_export] ''chat.md'' [msg_at 150] True)
       = Inr 1
   \<and> map_option totalMessages
        (parseExistingExport example_Date [''chat.md'' \<mapsto> first_export] ''chat.md'')
       = Some (Exactly 1)
   \<and> map_option totalMessages
        (parseExistingExport example_Date
           (fst (appendMessagesToExport example_day example_fmt example_numToString
                   ''2025-10-07T08:00:00.000Z'' ''10/7/2025''
                   [''chat.md'' \<mapsto> first_export] ''chat.md'' [msg_at 150] True))
           ''chat.md'')
       = Some (Exactly 2)
   \<and> fst (appendMessagesToExport example_day example_fmt example_numToString
             ''2025-10-07T08:00:00.000Z'' ''10/7/2025''
             [''chat.md'' \<mapsto> first_export] ''chat.md'' [msg_at 150] True) ''chat.md''
       = Some (export_text (header_first_lines example_metadata example_options) 2
           (header_mid_lines example_metadata)
           ''2025-10-07T08:00:00.000Z'' ''10/7/2025''
           (generateGroupedByDate example_day example_fmt [msg_at 50]
              @ [CHR 0x0A]
              @ join [CHR 0x0A] [''## 10/1/2025'' @ [CHR 0x0A], example_fmt (msg_at 150), []]))"
proof -
  let ?F = "header_first_lines example_metadata example_options"
  let ?M = "header_mid_lines example_metadata"
  let ?body = "generateGroupedByDate example_day example_fmt [msg_at 50]"
  have e: "first_export
      = export_text ?F 1 ?M ''2025-10-06T15:52:35.000Z'' ''10/6/2025'' ?body"
    using generateRAGDocument_layout [of example_options "[msg_at 50]" example_day example_fmt
        example_numToString "''2025-10-06T15:52:35.000Z''" "''10/6/2025''" example_metadata]
    by (simp add: first_export_def example_options_def exact_def)
  then have f: "[''chat.md'' \<mapsto> first_export] ''chat.md''
      = Some (export_text ?F 1 ?M ''2025-10-06T15:52:35.000Z'' ''10/6/2025'' ?body)"
    by simp
  have o: "well_formed_header ?F ?M ''2025-10-06T15:52:35.000Z'' ''10/6/2025''"
    by code_simp
  have n: "well_formed_header ?F ?M ''2025-10-07T08:00:00.000Z'' ''10/7/2025''"
    by code_simp
  have b: "1 + length [msg_at 150] \<le> (2 :: nat) ^ 53" by simp
  have t: "fst (appendMessagesToExport example_day example_fmt example_numToString
             ''2025-10-07T08:00:00.000Z'' ''10/7/2025''
             [''chat.md'' \<mapsto> first_export] ''chat.md'' [msg_at 150] True) ''chat.md''
       = Some (export_text ?F 2 ?M ''2025-10-07T08:00:00.000Z'' ''10/7/2025''
           (?body @ [CHR 0x0A]
              @ join [CHR 0x0A] [''## 10/1/2025'' @ [CHR 0x0A], example_fmt (msg_at 150), []]))"
    by code_simp
  from C2_count_rises_by_number_appended [where fs = "[''chat.md'' \<mapsto> first_export]" and outputPath = "''chat.md''"
      and firstLines = ?F and n = 1 and midLines = ?M
      and runISO = "''2025-10-06T15:52:35.000Z''" and runLocal = "''10/6/2025''"
      and body = ?body and nowISO = "''2025-10-07T08:00:00.000Z''"
      and nowLocal = "''10/7/2025''" and newMessages = "[msg_at 150]"
      and dstr = example_day and fmt = example_fmt and numToString = example_numToString
      and groupByDate = True and Date = example_Date, OF f o n b]
  have "snd (appendMessagesToExport example_day example_fmt example_numToString
             ''2025-10-07T08:00:00.000Z'' ''10/7/2025''
             [''chat.md'' \<mapsto> first_export] ''chat.md'' [msg_at 150] True)
       = Inr 1
   \<and> map_option totalMessages
        (parseExistingExport example_Date [''chat.md'' \<mapsto> first_export] ''chat.md'')
       = Some (Exactly 1)
   \<and> map_option totalMessages
        (parseExistingExport example_Date
           (fst (appendMessagesToExport example_day example_fmt example_numToString
                   ''2025-10-07T08:00:00.000Z'' ''10/7/2025''
                   [''chat.md'' \<mapsto> first_export] ''chat.md'' [msg_at 150] True))
           ''chat.md'')
       = Some (Exactly 2)"
    by (simp add: numeral_2_eq_2)
  with e o n t show ?thesis by simp
qed

text \<open>
  Three files whose header holds a count that the reader reads, for which the claim
  fails. In the first the last-run field has no value on its line: the rewrite of the
  last-run field takes the next line, which holds the count, as the value, and the
  reader finds no count after the append (it reads 0, not 6). In the second a topic line
  before the count line holds a total-message field too: the append rewrites that first
  field, and the reader, which keeps the last field of the header, reads 10 before and
  10 after. In the third the body is empty: after appending one message the header says
  11 and the body holds the one block appended.
\<close>

theorem C2_count_invariant_counterexample:
  "map_option totalMessages
      (parseExistingExport example_Date [''chat.md'' \<mapsto> overrun_export] ''chat.md'')
     = Some (Exactly 5)
   \<and> snd (appendMessagesToExport example_day example_fmt example_numToString
            ''2025-10-07T08:00:00.000Z'' ''10/7/2025'' [''chat.md'' \<mapsto> overrun_export]
            ''chat.md'' [msg_at 150] True)
       = Inr 1
   \<and> map_option totalMessages
        (parseExistingExport example_Date
           (fst (appendMessagesToExport example_day example_fmt example_numToString
                   ''2025-10-07T08:00:00.000Z'' ''10/7/2025''
                   [''chat.md'' \<mapsto> overrun_export] ''chat.md'' [msg_at 150] True))
           ''chat.md'')
       = Some (Exactly 0)
   \<and> map_option totalMessages
        (parseExistingExport example_Date [''chat.md'' \<mapsto> topic_count_export] ''chat.md'')
       = Some (Exactly 10)
   \<and> snd (appendMessagesToExport example_day example_fmt example_numToString
            ''2025-10-07T08:00:00.000Z'' ''10/7/2025'' [''chat.md'' \<mapsto> topic_count_export]
            ''chat.md'' [msg_at 150] True)
       = Inr 1
   \<and> map_option totalMessages
        (parseExistingExport example_Date
           (fst (appendMessagesToExport example_day example_fmt example_numToString
                   ''2025-10-07T08:00:00.000Z'' ''10/7/2025''
                   [''chat.md'' \<mapsto> topic_count_export] ''chat.md'' [msg_at 150] True))
           ''chat.md'')
       = Some (Exactly 10)
   \<and> fst (appendMessagesToExport example_day example_fmt example_numToString
            ''2025-10-07T08:00:00.000Z'' ''10/7/2025'' [''chat.md'' \<mapsto> generated_export]
            ''chat.md'' [msg_at 150] True) ''chat.md''
       = Some (export_text [] 11 [] ''2025-10-07T08:00:00.000Z'' ''10/7/2025''
           ([CHR 0x0A]
              @ join [CHR 0x0A] [''## 10/1/2025'' @ [CHR 0x0A], example_fmt (msg_at 150), []]))"
  by code_simp

end
